theory Spec2Isabelle
  imports Complex_Main "HOL-Library.Multiset"
begin

section \<open>The generational MO-CMA-ES of Shark (MOCMA.h)\<close>

text \<open>
  The development embeds \<^verbatim>\<open>shark::detail::MOCMA\<close> from
  \<^verbatim>\<open>include/shark/Algorithms/DirectSearch/MOCMA.h\<close>. A C++ \<^verbatim>\<open>double\<close> is
  read as a real number, \<^verbatim>\<open>std::size_t\<close> and \<^verbatim>\<open>unsigned int\<close> as natural
  numbers (the only arithmetic on them in this header is \<^verbatim>\<open>2 * mu()\<close> and
  \<^verbatim>\<open>mu() + i\<close> on \<^verbatim>\<open>std::size_t\<close>, where \<^verbatim>\<open>mu\<close> came from an
  \<^verbatim>\<open>unsigned int\<close>), and a \<^verbatim>\<open>RealVector\<close> as a list of reals.
\<close>

subsection \<open>Data model\<close>

text \<open>
  Modelled from the spec: the class \<^verbatim>\<open>CMAIndividual\<close> is declared in
  \<^verbatim>\<open>CMA/CMAIndividual.h\<close>, which is not part of the sources at hand. The record
  has one field for each accessor MOCMA.h uses (\<^verbatim>\<open>searchPoint()\<close>,
  \<^verbatim>\<open>fitness(PenalizedFitness)\<close>, \<^verbatim>\<open>fitness(UnpenalizedFitness)\<close>,
  \<^verbatim>\<open>rank()\<close>, \<^verbatim>\<open>selected()\<close>, \<^verbatim>\<open>age()\<close>, \<^verbatim>\<open>noSuccessfulOffspring()\<close>)
  and for the two strategy parameters its constructor receives (success threshold and
  initial step size), as the data model of the specification lists them.
\<close>

record individual =
  searchPoint :: "real list"
  penalizedFitness :: "real list"
  unpenalizedFitness :: "real list"
  rank :: nat
  selected :: bool
  age :: nat
  noSuccessfulOffspring :: real
  stepSize :: real
  successThreshold :: real

text \<open>
  Of \<^verbatim>\<open>shark::moo::PenalizingEvaluator\<close> MOCMA.h touches the member
  \<^verbatim>\<open>m_penaltyFactor\<close>, of \<^verbatim>\<open>IndicatorBasedSelection\<close> the member \<^verbatim>\<open>m_mu\<close>.
\<close>

record penalizing_evaluator =
  m_penaltyFactor :: real

record indicator_based_selection =
  m_mu :: nat

record mocma =
  m_pop :: "individual list"
  m_evaluator :: penalizing_evaluator
  m_selection :: indicator_based_selection
  m_useNewUpdate :: bool
  m_individualSuccessThreshold :: real
  m_initialSigma :: real

definition mu :: "mocma \<Rightarrow> nat" where
  "mu st = m_mu (m_selection st)"

text \<open>
  Modelled from the spec: \<^verbatim>\<open>IndicatorBasedSelection::setMu\<close> is not part of the
  sources at hand. \<^verbatim>\<open>MOCMA::mu()\<close> reads \<^verbatim>\<open>m_selection.m_mu\<close> back, and the
  configuration surface of the specification has \<^verbatim>\<open>mu\<close> as the population size, so
  the setter stores its argument.
\<close>

definition setMu :: "nat \<Rightarrow> indicator_based_selection \<Rightarrow> indicator_based_selection" where
  "setMu mu' sel = sel\<lparr>m_mu := mu'\<rparr>"

subsection \<open>Configuration\<close>

definition DEFAULT_MU :: nat where
  "DEFAULT_MU = 100"

definition DEFAULT_PENALTY_FACTOR :: real where
  "DEFAULT_PENALTY_FACTOR = 1 / 1000000"

definition DEFAULT_SUCCESS_THRESHOLD :: real where
  "DEFAULT_SUCCESS_THRESHOLD = 44 / 100"

definition DEFAULT_NOTION_OF_SUCCESS :: string where
  "DEFAULT_NOTION_OF_SUCCESS = ''IndividualBased''"

definition DEFAULT_INITIAL_SIGMA :: real where
  "DEFAULT_INITIAL_SIGMA = 1"

text \<open>
  \<^verbatim>\<open>void init(unsigned int mu, double penaltyFactor, double successThreshold,
  const std::string &notionOfSuccess, double initialSigma)\<close>: four assignments, then
  an \<^verbatim>\<open>if\<close>/\<^verbatim>\<open>else if\<close> on the string with no final \<^verbatim>\<open>else\<close>. The function
  has no \<^verbatim>\<open>throw\<close> and no return value.
\<close>

definition init_config :: "nat \<Rightarrow> real \<Rightarrow> real \<Rightarrow> string \<Rightarrow> real \<Rightarrow> mocma \<Rightarrow> mocma" where
  "init_config mu' penaltyFactor successThreshold' notionOfSuccess initialSigma st =
     (let st1 = st\<lparr>m_selection := setMu mu' (m_selection st)\<rparr>;
          st2 = st1\<lparr>m_initialSigma := initialSigma\<rparr>;
          st3 = st2\<lparr>m_evaluator := (m_evaluator st2)\<lparr>m_penaltyFactor := penaltyFactor\<rparr>\<rparr>;
          st4 = st3\<lparr>m_individualSuccessThreshold := successThreshold'\<rparr>
      in if notionOfSuccess = ''IndividualBased'' then st4\<lparr>m_useNewUpdate := False\<rparr>
         else if notionOfSuccess = ''PopulationBased'' then st4\<lparr>m_useNewUpdate := True\<rparr>
         else st4)"

text \<open>
  The default constructor \<^verbatim>\<open>MOCMA() { init(); }\<close> runs \<^verbatim>\<open>init\<close> with the five
  defaults on a freshly default-constructed object: the population is empty, and every
  other modelled member is assigned by \<^verbatim>\<open>init\<close> (the default notion is a recognised
  one), so the values given to them here are overwritten.
\<close>

definition MOCMA :: mocma where
  "MOCMA = init_config DEFAULT_MU DEFAULT_PENALTY_FACTOR DEFAULT_SUCCESS_THRESHOLD
             DEFAULT_NOTION_OF_SUCCESS DEFAULT_INITIAL_SIGMA
             \<lparr>m_pop = [], m_evaluator = \<lparr>m_penaltyFactor = 0\<rparr>, m_selection = \<lparr>m_mu = 0\<rparr>,
              m_useNewUpdate = True, m_individualSuccessThreshold = 0, m_initialSigma = 0\<rparr>"

subsection \<open>Serialization\<close>

text \<open>
  \<^verbatim>\<open>serialize\<close> is one member template used for both directions: with an output
  archive \<^verbatim>\<open>archive & x\<close> appends \<^verbatim>\<open>x\<close> to the archive, with an input archive it
  reads the next item into \<^verbatim>\<open>x\<close>. An archive is the sequence of items written so
  far (output) or still to be read (input). The \<^verbatim>\<open>serialize\<close> functions of the
  population, the evaluator and the selection operator are not part of the sources at
  hand; each is taken to store and restore its whole object. Reading an item of the wrong
  kind, or from an exhausted archive, is the archive exception: \<open>None\<close>.
\<close>

datatype item =
  PopItem "individual list"
  | EvaluatorItem penalizing_evaluator
  | SelectionItem indicator_based_selection
  | BoolItem bool

datatype archive = OArchive "item list" | IArchive "item list"

fun ar_pop :: "archive \<Rightarrow> individual list \<Rightarrow> (archive \<times> individual list) option" where
  "ar_pop (OArchive out) x = Some (OArchive (out @ [PopItem x]), x)"
| "ar_pop (IArchive (PopItem y # rest)) x = Some (IArchive rest, y)"
| "ar_pop (IArchive _) x = None"

fun ar_evaluator :: "archive \<Rightarrow> penalizing_evaluator \<Rightarrow> (archive \<times> penalizing_evaluator) option" where
  "ar_evaluator (OArchive out) x = Some (OArchive (out @ [EvaluatorItem x]), x)"
| "ar_evaluator (IArchive (EvaluatorItem y # rest)) x = Some (IArchive rest, y)"
| "ar_evaluator (IArchive _) x = None"

fun ar_selection :: "archive \<Rightarrow> indicator_based_selection \<Rightarrow> (archive \<times> indicator_based_selection) option" where
  "ar_selection (OArchive out) x = Some (OArchive (out @ [SelectionItem x]), x)"
| "ar_selection (IArchive (SelectionItem y # rest)) x = Some (IArchive rest, y)"
| "ar_selection (IArchive _) x = None"

fun ar_bool :: "archive \<Rightarrow> bool \<Rightarrow> (archive \<times> bool) option" where
  "ar_bool (OArchive out) x = Some (OArchive (out @ [BoolItem x]), x)"
| "ar_bool (IArchive (BoolItem y # rest)) x = Some (IArchive rest, y)"
| "ar_bool (IArchive _) x = None"

definition serialize :: "archive \<Rightarrow> mocma \<Rightarrow> (archive \<times> mocma) option" where
  "serialize ar st =
     (case ar_pop ar (m_pop st) of None \<Rightarrow> None
      | Some (ar1, p) \<Rightarrow>
     (case ar_evaluator ar1 (m_evaluator st) of None \<Rightarrow> None
      | Some (ar2, e) \<Rightarrow>
     (case ar_selection ar2 (m_selection st) of None \<Rightarrow> None
      | Some (ar3, s) \<Rightarrow>
     (case ar_bool ar3 (m_useNewUpdate st) of None \<Rightarrow> None
      | Some (ar4, b) \<Rightarrow>
          Some (ar4, st\<lparr>m_pop := p, m_evaluator := e, m_selection := s, m_useNewUpdate := b\<rparr>)))))"

text \<open>Storing writes into an empty output archive; loading reads what was stored.\<close>

definition stored :: "mocma \<Rightarrow> item list" where
  "stored st = (case serialize (OArchive []) st of Some (OArchive out, _) \<Rightarrow> out | _ \<Rightarrow> [])"

definition load :: "item list \<Rightarrow> mocma \<Rightarrow> mocma option" where
  "load items st = map_option snd (serialize (IArchive items) st)"

subsection \<open>The collaborators of the optimizer\<close>

text \<open>
  The objective function is a template parameter of \<^verbatim>\<open>init\<close> and \<^verbatim>\<open>step\<close>.
  MOCMA.h calls \<^verbatim>\<open>numberOfObjectives()\<close>, \<^verbatim>\<open>numberOfVariables()\<close> and
  \<^verbatim>\<open>proposeStartingPoint(x)\<close> on it and hands it to the evaluator. The benchmark
  functions of the library draw proposed starting points from the global random number
  generator and count evaluations in a mutable member, so every call that may touch such
  state threads a world \<open>'w\<close> (random source, evaluation counters).
\<close>

record 'w objective =
  numberOfObjectives :: nat
  numberOfVariables :: nat
  proposeStartingPoint :: "real list \<Rightarrow> 'w \<Rightarrow> real list \<times> 'w"
  eval :: "real list \<Rightarrow> 'w \<Rightarrow> real list \<times> 'w"

text \<open>
  \<^verbatim>\<open>CMAIndividual::mutate\<close>, \<^verbatim>\<open>CMAIndividual::update\<close>, the call operator of
  \<^verbatim>\<open>PenalizingEvaluator\<close> and the call operator of \<^verbatim>\<open>IndicatorBasedSelection\<close>
  are not part of the sources at hand. \<^verbatim>\<open>step\<close> and \<^verbatim>\<open>init\<close> are embedded for
  arbitrary such operators: \<open>mutate\<close> and \<open>update\<close> map an individual to an
  individual (mutation draws from the random source), the evaluator returns the pair of
  the penalized and the unpenalized result, and selection rewrites the population it is
  given by reference.
\<close>

record 'w operators =
  mutate :: "individual \<Rightarrow> 'w \<Rightarrow> individual \<times> 'w"
  update :: "individual \<Rightarrow> individual"
  evaluate :: "penalizing_evaluator \<Rightarrow> 'w objective \<Rightarrow> real list \<Rightarrow> 'w \<Rightarrow> (real list \<times> real list) \<times> 'w"
  select :: "indicator_based_selection \<Rightarrow> individual list \<Rightarrow> 'w \<Rightarrow> individual list \<times> 'w"

definition PENALIZED_RESULT :: "real list \<times> real list \<Rightarrow> real list" where
  "PENALIZED_RESULT result = fst result"

definition UNPENALIZED_RESULT :: "real list \<times> real list \<Rightarrow> real list" where
  "UNPENALIZED_RESULT result = snd result"

text \<open>
  Modelled from the spec: the constructor \<^verbatim>\<open>CMAIndividual(noVariables, noObjectives,
  successThreshold, initialSigma)\<close> is not part of the sources at hand. By the data
  model of the specification the search point has the problem's variable count as its
  dimension, the fitness vectors have the objective count, the age counts from zero, and
  the step size is the initial sigma handed in.
\<close>

definition CMAIndividual :: "nat \<Rightarrow> nat \<Rightarrow> real \<Rightarrow> real \<Rightarrow> individual" where
  "CMAIndividual noVariables noObjectives successThreshold' initialStepSize =
     \<lparr>searchPoint = replicate noVariables 0,
      penalizedFitness = replicate noObjectives 0,
      unpenalizedFitness = replicate noObjectives 0,
      rank = 0, selected = False, age = 0, noSuccessfulOffspring = 0,
      stepSize = initialStepSize, successThreshold = successThreshold'\<rparr>"

subsection \<open>Initialisation for an objective function\<close>

text \<open>
  \<^verbatim>\<open>void init(const ObjectiveFunction &f, const RealVector &sp = RealVector())\<close>.
  One pass of the loop builds an individual, lets the objective function propose its
  search point, evaluates it, stores both fitness vectors and appends the individual to
  \<^verbatim>\<open>m_pop\<close>. The parameter \<^verbatim>\<open>sp\<close> does not occur in the body.
\<close>

definition init_body :: "'w operators \<Rightarrow> 'w objective \<Rightarrow> mocma \<Rightarrow> nat \<Rightarrow> individual list \<times> 'w \<Rightarrow> individual list \<times> 'w" where
  "init_body C f st i = (\<lambda>(pop, w).
     (let ind = CMAIndividual (numberOfVariables f) (numberOfObjectives f)
                  (m_individualSuccessThreshold st) (m_initialSigma st);
          (x, w1) = proposeStartingPoint f (searchPoint ind) w;
          ind1 = ind\<lparr>searchPoint := x\<rparr>;
          (result, w2) = evaluate C (m_evaluator st) f (searchPoint ind1) w1;
          ind2 = ind1\<lparr>penalizedFitness := PENALIZED_RESULT result\<rparr>;
          ind3 = ind2\<lparr>unpenalizedFitness := UNPENALIZED_RESULT result\<rparr>
      in (pop @ [ind3], w2)))"

definition init_f :: "'w operators \<Rightarrow> 'w objective \<Rightarrow> real list \<Rightarrow> mocma \<Rightarrow> 'w \<Rightarrow> mocma \<times> 'w" where
  "init_f C f sp st w =
     (let (pop, w') = fold (init_body C f st) [0..<2 * mu st] (m_pop st, w)
      in (st\<lparr>m_pop := pop\<rparr>, w'))"

subsection \<open>\<^verbatim>\<open>std::partition\<close>\<close>

text \<open>
  \<^verbatim>\<open>step\<close> calls \<^verbatim>\<open>std::partition(m_pop.begin(), m_pop.end(), IsSelected)\<close> of the
  C++ standard library, which promises that the elements satisfying the predicate precede
  the others and promises nothing about their relative order. The iterators of a
  \<^verbatim>\<open>std::vector\<close> are bidirectional, and for those libstdc++, libc++ and the MSVC
  library all run the same loop:
  \<^verbatim>\<open>
  while (true) {
    while (true)
      if (first == last) return first;
      else if (pred(*first)) ++first;
      else break;
    --last;
    while (true)
      if (first == last) return first;
      else if (!pred(*last)) --last;
      else break;
    std::iter_swap(first, last);
    ++first;
  }
  \<close>
  Iterators are positions in the list. They satisfy \<open>first \<le> last\<close> throughout, so
  \<^verbatim>\<open>first == last\<close> is \<open>\<not> first < last\<close>.
\<close>

function partition_fwd :: "('a \<Rightarrow> bool) \<Rightarrow> 'a list \<Rightarrow> nat \<Rightarrow> nat \<Rightarrow> nat" where
  "partition_fwd p xs first last' =
     (if first < last' \<and> p (xs ! first) then partition_fwd p xs (Suc first) last' else first)"
  by pat_completeness auto
termination
  by (relation "measure (\<lambda>(p, xs, first, last'). last' - first)") auto

function partition_bwd :: "('a \<Rightarrow> bool) \<Rightarrow> 'a list \<Rightarrow> nat \<Rightarrow> nat \<Rightarrow> nat" where
  "partition_bwd p xs first last' =
     (if first < last' \<and> \<not> p (xs ! last') then partition_bwd p xs first (last' - 1) else last')"
  by pat_completeness auto
termination
  by (relation "measure (\<lambda>(p, xs, first, last'). last' - first)") auto

definition iter_swap :: "'a list \<Rightarrow> nat \<Rightarrow> nat \<Rightarrow> 'a list" where
  "iter_swap xs i j = xs[i := xs ! j, j := xs ! i]"

declare partition_fwd.simps [simp del] partition_bwd.simps [simp del]

lemma partition_fwd_le: "partition_fwd p xs first last' \<le> max first last'"
  by (induction p xs first last' rule: partition_fwd.induct)
     (subst partition_fwd.simps, auto)

lemma partition_fwd_ge: "first \<le> partition_fwd p xs first last'"
  by (induction p xs first last' rule: partition_fwd.induct)
     (subst partition_fwd.simps, auto)

lemma partition_bwd_le: "partition_bwd p xs first last' \<le> last'"
  by (induction p xs first last' rule: partition_bwd.induct)
     (subst partition_bwd.simps, auto)

function partition_loop :: "('a \<Rightarrow> bool) \<Rightarrow> 'a list \<Rightarrow> nat \<Rightarrow> nat \<Rightarrow> 'a list \<times> nat" where
  "partition_loop p xs first last' =
     (let first1 = partition_fwd p xs first last' in
      if \<not> first1 < last' then (xs, first1)
      else let last1 = partition_bwd p xs first1 (last' - 1) in
        if \<not> first1 < last1 then (xs, first1)
        else partition_loop p (iter_swap xs first1 last1) (Suc first1) last1)"
  by pat_completeness auto
termination
proof (relation "measure (\<lambda>(p, xs, first, last'). last' - first)", goal_cases)
  case 1
  show ?case by simp
next
  case (2 p xs first last' first1 last1)
  have a: "first \<le> first1" unfolding 2(1) by (rule partition_fwd_ge)
  have b: "last1 \<le> last' - 1" unfolding 2(3) by (rule partition_bwd_le)
  have c: "first1 < last1" using 2(4) by simp
  from a b c show ?case by simp
qed

declare partition_loop.simps [simp del]

definition std_partition :: "('a \<Rightarrow> bool) \<Rightarrow> 'a list \<Rightarrow> 'a list" where
  "std_partition p xs = fst (partition_loop p xs 0 (length xs))"

subsection \<open>One generation: \<^verbatim>\<open>step\<close>\<close>

text \<open>
  The first loop of \<^verbatim>\<open>step\<close>, one statement of the source per line: copy the parent
  into the offspring slot, mutate the slot, reset its age, evaluate its search point,
  store the penalized and the unpenalized result.
\<close>

definition offspring_body :: "'w operators \<Rightarrow> 'w objective \<Rightarrow> mocma \<Rightarrow> nat \<Rightarrow> individual list \<times> 'w \<Rightarrow> individual list \<times> 'w" where
  "offspring_body C f st i = (\<lambda>(pop, w).
     (let pop1 = pop[mu st + i := pop ! i];
          (x, w1) = mutate C (pop1 ! (mu st + i)) w;
          pop2 = pop1[mu st + i := x];
          pop3 = pop2[mu st + i := (pop2 ! (mu st + i))\<lparr>age := 0\<rparr>];
          (result, w2) = evaluate C (m_evaluator st) f (searchPoint (pop3 ! (mu st + i))) w1;
          pop4 = pop3[mu st + i := (pop3 ! (mu st + i))\<lparr>penalizedFitness := PENALIZED_RESULT result\<rparr>];
          pop5 = pop4[mu st + i := (pop4 ! (mu st + i))\<lparr>unpenalizedFitness := UNPENALIZED_RESULT result\<rparr>]
      in (pop5, w2)))"

definition generate_offspring :: "'w operators \<Rightarrow> 'w objective \<Rightarrow> mocma \<Rightarrow> 'w \<Rightarrow> individual list \<times> 'w" where
  "generate_offspring C f st w = fold (offspring_body C f st) [0..<mu st] (m_pop st, w)"

text \<open>The two success loops: the new (population-based) and the old (individual-based) update.\<close>

definition credit :: "individual \<Rightarrow> individual" where
  "credit ind = ind\<lparr>noSuccessfulOffspring := noSuccessfulOffspring ind + 1\<rparr>"

definition success_new_body :: "nat \<Rightarrow> nat \<Rightarrow> individual list \<Rightarrow> individual list" where
  "success_new_body m i pop =
     (if selected (pop ! (m + i)) then
        (let pop1 = pop[m + i := credit (pop ! (m + i))];
             pop2 = pop1[i := credit (pop1 ! i)]
         in pop2)
      else pop)"

definition success_old_body :: "nat \<Rightarrow> nat \<Rightarrow> individual list \<Rightarrow> individual list" where
  "success_old_body m i pop =
     (if selected (pop ! (m + i)) \<and> rank (pop ! (m + i)) \<le> rank (pop ! i) then
        (let pop1 = pop[m + i := credit (pop ! (m + i))];
             pop2 = pop1[i := credit (pop1 ! i)]
         in pop2)
      else pop)"

definition determine_success :: "bool \<Rightarrow> nat \<Rightarrow> individual list \<Rightarrow> individual list" where
  "determine_success useNewUpdate m pop =
     (if useNewUpdate then fold (success_new_body m) [0..<m] pop
      else fold (success_old_body m) [0..<m] pop)"

text \<open>The last loop: age, update, and the pair pushed onto the solution set.\<close>

type_synonym solution_set = "(real list \<times> real list) list"

definition survivor_body :: "'w operators \<Rightarrow> nat \<Rightarrow> individual list \<times> solution_set \<Rightarrow> individual list \<times> solution_set" where
  "survivor_body C i = (\<lambda>(pop, solutionSet).
     (let pop1 = pop[i := (pop ! i)\<lparr>age := age (pop ! i) + 1\<rparr>];
          pop2 = pop1[i := update C (pop1 ! i)]
      in (pop2, solutionSet @ [(searchPoint (pop2 ! i), unpenalizedFitness (pop2 ! i))])))"

definition update_survivors :: "'w operators \<Rightarrow> nat \<Rightarrow> individual list \<Rightarrow> individual list \<times> solution_set" where
  "update_survivors C m pop = fold (survivor_body C) [0..<m] (pop, [])"

text \<open>
  \<^verbatim>\<open>step\<close> indexes \<^verbatim>\<open>m_pop\<close> with \<^verbatim>\<open>operator[]\<close> at every position below
  \<^verbatim>\<open>2 * mu()\<close>. On a shorter population that is undefined behaviour, for which the
  model has no result (\<open>None\<close>); the same holds should the selection operator hand
  back a shorter population. The loop counter of the last loop is an \<^verbatim>\<open>unsigned int\<close>
  compared with \<^verbatim>\<open>mu()\<close>, which \<^verbatim>\<open>init\<close> set from an \<^verbatim>\<open>unsigned int\<close>.
\<close>

definition select_and_finish :: "'w operators \<Rightarrow> mocma \<Rightarrow> individual list \<times> 'w \<Rightarrow> (solution_set \<times> mocma \<times> 'w) option" where
  "select_and_finish C st = (\<lambda>(pop1, w1).
     (let (pop2, w2) = select C (m_selection st) pop1 w1 in
      if length pop2 < 2 * mu st then None
      else
        (let pop3 = determine_success (m_useNewUpdate st) (mu st) pop2;
             pop4 = std_partition selected pop3;
             (pop5, solutionSet) = update_survivors C (mu st) pop4
         in Some (solutionSet, st\<lparr>m_pop := pop5\<rparr>, w2))))"

definition step :: "'w operators \<Rightarrow> 'w objective \<Rightarrow> mocma \<Rightarrow> 'w \<Rightarrow> (solution_set \<times> mocma \<times> 'w) option" where
  "step C f st w =
     (if length (m_pop st) < 2 * mu st then None
      else select_and_finish C st (generate_offspring C f st w))"

subsection \<open>The individual's own operations\<close>

text \<open>
  Modelled from the spec: \<^verbatim>\<open>CMAIndividual::mutate\<close> is not part of the sources at
  hand. By the specification it "samples a new search point by perturbing the current one
  with an isotropic Gaussian step scaled by stepSize"; \<open>z\<close> is the vector of
  standard normal draws.
\<close>

definition CMAIndividual_mutate :: "real list \<Rightarrow> individual \<Rightarrow> individual" where
  "CMAIndividual_mutate z ind =
     ind\<lparr>searchPoint := map (\<lambda>(x, n). x + stepSize ind * n) (zip (searchPoint ind) z)\<rparr>"

subsection \<open>Indicator-based selection\<close>

text \<open>
  Modelled from the spec: Pareto dominance as the glossary has it, "A dominates B if A is
  no worse in every objective and strictly better in at least one", for objectives that
  are minimised.
\<close>

definition dominates :: "real list \<Rightarrow> real list \<Rightarrow> bool" where
  "dominates a b = (list_all2 (\<lambda>x y. x \<le> y) a b \<and> list_ex (\<lambda>(x, y). x < y) (zip a b))"

text \<open>
  Modelled from the spec: the non-domination front of the members still to be ranked,
  given by their population indices: those that no remaining member dominates on
  penalized fitness.
\<close>

definition front_of :: "individual list \<Rightarrow> nat list \<Rightarrow> nat list" where
  "front_of pop rest =
     filter (\<lambda>i. \<not> list_ex (\<lambda>j. dominates (penalizedFitness (pop ! j)) (penalizedFitness (pop ! i))) rest) rest"

text \<open>
  A dominating vector has the smaller sum, so a member of least sum is dominated by
  none: every non-empty remainder has a non-empty front, and peeling fronts ends.
\<close>

lemma dominates_sum: "dominates a b \<Longrightarrow> sum_list a < sum_list b"
proof -
  have "list_all2 (\<lambda>x y. x \<le> y) a b \<Longrightarrow> list_ex (\<lambda>(x, y). x < y) (zip a b) \<Longrightarrow> sum_list a < sum_list b"
  proof (induction a b rule: list_all2_induct)
    case Nil
    then show ?case by simp
  next
    case (Cons x xs y ys)
    have le: "sum_list xs \<le> sum_list ys"
      using Cons.hyps(2) by (induction xs ys rule: list_all2_induct) auto
    show ?case
    proof (cases "x < y")
      case True
      with le show ?thesis by simp
    next
      case False
      with Cons.prems have "list_ex (\<lambda>(x, y). x < y) (zip xs ys)" by simp
      with Cons.IH have "sum_list xs < sum_list ys" by simp
      with Cons.hyps(1) show ?thesis by simp
    qed
  qed
  then show "dominates a b \<Longrightarrow> sum_list a < sum_list b" by (simp add: dominates_def)
qed

lemma front_of_nonempty:
  assumes "rest \<noteq> []"
  shows "front_of pop rest \<noteq> []"
proof -
  let ?s = "\<lambda>i. sum_list (penalizedFitness (pop ! i))"
  have "finite (?s ` set rest)" "?s ` set rest \<noteq> {}" using assms by simp_all
  then have "Min (?s ` set rest) \<in> ?s ` set rest" by (rule Min_in)
  then obtain i where i: "i \<in> set rest" "?s i = Min (?s ` set rest)" by auto
  have "\<not> dominates (penalizedFitness (pop ! j)) (penalizedFitness (pop ! i))" if "j \<in> set rest" for j
  proof
    assume "dominates (penalizedFitness (pop ! j)) (penalizedFitness (pop ! i))"
    then have "?s j < ?s i" by (rule dominates_sum)
    moreover have "?s i \<le> ?s j" using that i(2) by simp
    ultimately show False by simp
  qed
  then have "i \<in> set (front_of pop rest)" using i(1)
    by (auto simp: front_of_def list_ex_iff)
  then show ?thesis by auto
qed

lemma front_of_subset: "set (front_of pop rest) \<subseteq> set rest"
  by (auto simp: front_of_def)

lemma beyond_front_shorter:
  assumes "rest \<noteq> []"
  shows "length (filter (\<lambda>i. i \<notin> set (front_of pop rest)) rest) < length rest"
proof -
  from front_of_nonempty[OF assms] obtain i where "i \<in> set (front_of pop rest)"
    by (cases "front_of pop rest") auto
  moreover then have "i \<in> set rest" using front_of_subset by blast
  ultimately show ?thesis by (auto intro: length_filter_less)
qed

text \<open>
  Modelled from the spec: step 1 of the selection algorithm, the successive fronts
  \<open>F0, F1, \<dots>\<close> of the population.
\<close>

function fronts :: "individual list \<Rightarrow> nat list \<Rightarrow> nat list list" where
  "fronts pop rest =
     (if rest = [] then []
      else front_of pop rest # fronts pop (filter (\<lambda>i. i \<notin> set (front_of pop rest)) rest))"
  by pat_completeness auto
termination
  by (relation "measure (\<lambda>(pop, rest). length rest)") (auto simp: beyond_front_shorter)

declare fronts.simps [simp del]

text \<open>
  Modelled from the spec: the indicators are not part of the sources at hand. An
  indicator is represented by the contribution it assigns to each point of a front
  (\<open>contribution fs i\<close> for the point at position \<open>i\<close> of the front with
  the fitness vectors \<open>fs\<close>); the least contributor is the position of the smallest
  contribution, the first one among equals, as the tie-break policy of the specification
  has it. The randomised approximate indicator is not covered.
\<close>

definition first_least :: "real list \<Rightarrow> nat" where
  "first_least cs = fst (fold (\<lambda>i (k, v). if cs ! i < v then (i, cs ! i) else (k, v)) [0..<length cs] (0, cs ! 0))"

definition leastContributor :: "(real list list \<Rightarrow> nat \<Rightarrow> real) \<Rightarrow> real list list \<Rightarrow> nat" where
  "leastContributor contribution fs = first_least (map (contribution fs) [0..<length fs])"

definition remove_at :: "nat \<Rightarrow> 'a list \<Rightarrow> 'a list" where
  "remove_at k xs = take k xs @ drop (Suc k) xs"

lemma first_least_less:
  assumes "cs \<noteq> []"
  shows "first_least cs < length cs"
proof -
  have "n \<le> length cs \<Longrightarrow> fst (fold (\<lambda>i (k, v). if cs ! i < v then (i, cs ! i) else (k, v)) [0..<n] (0, cs ! 0)) < length cs" for n
  proof (induction n)
    case 0
    then show ?case using assms by simp
  next
    case (Suc n)
    then show ?case by (auto simp: split_beta)
  qed
  then show ?thesis by (simp add: first_least_def)
qed

lemma leastContributor_less: "fs \<noteq> [] \<Longrightarrow> leastContributor contribution fs < length fs"
  using first_least_less[of "map (contribution fs) [0..<length fs]"]
  by (simp add: leastContributor_def)

lemma length_remove_at: "k < length xs \<Longrightarrow> length (remove_at k xs) = length xs - 1"
  by (auto simp: remove_at_def)

text \<open>
  Modelled from the spec: step 3, "iteratively remove the least contributor until the
  front's remaining size equals the number of slots left".
\<close>

function prune :: "(real list list \<Rightarrow> nat \<Rightarrow> real) \<Rightarrow> individual list \<Rightarrow> nat \<Rightarrow> nat list \<Rightarrow> nat list" where
  "prune contribution pop slots F =
     (if length F \<le> slots then F
      else prune contribution pop slots
             (remove_at (leastContributor contribution (map (\<lambda>i. penalizedFitness (pop ! i)) F)) F))"
  by pat_completeness auto
termination
proof (relation "measure (\<lambda>(contribution, pop, slots, F). length F)", goal_cases)
  case 1
  show ?case by simp
next
  case (2 contribution pop slots F)
  then have "F \<noteq> []" by auto
  then have "leastContributor contribution (map (\<lambda>i. penalizedFitness (pop ! i)) F) < length F"
    using leastContributor_less[of "map (\<lambda>i. penalizedFitness (pop ! i)) F" contribution] by simp
  then show ?case using \<open>F \<noteq> []\<close> by (simp add: length_remove_at)
qed

declare prune.simps [simp del]

text \<open>
  Modelled from the spec: steps 2 to 4. Whole fronts are taken in rank order while they
  fit; the first front that does not fit is pruned to the slots left; the members of
  later fronts are not taken.
\<close>

fun survivors_of :: "(real list list \<Rightarrow> nat \<Rightarrow> real) \<Rightarrow> individual list \<Rightarrow> nat \<Rightarrow> nat list list \<Rightarrow> nat list" where
  "survivors_of contribution pop slots [] = []"
| "survivors_of contribution pop slots (F # Fs) =
     (if length F \<le> slots then F @ survivors_of contribution pop (slots - length F) Fs
      else prune contribution pop slots F)"

text \<open>
  Modelled from the spec: the call operator of \<^verbatim>\<open>IndicatorBasedSelection\<close>, which
  is not part of the sources at hand. Every member gets the index of its front as rank
  and is flagged as selected exactly when it was taken.
\<close>

definition rank_in :: "nat list list \<Rightarrow> nat \<Rightarrow> nat" where
  "rank_in Fs i = length (takeWhile (\<lambda>F. i \<notin> set F) Fs)"

definition indicator_selection :: "(real list list \<Rightarrow> nat \<Rightarrow> real) \<Rightarrow> indicator_based_selection \<Rightarrow> individual list \<Rightarrow> individual list" where
  "indicator_selection contribution sel pop =
     (let Fs = fronts pop [0..<length pop];
          S = survivors_of contribution pop (m_mu sel) Fs
      in map (\<lambda>i. (pop ! i)\<lparr>rank := rank_in Fs i, selected := (i \<in> set S)\<rparr>) [0..<length pop])"

definition indicator_select :: "(real list list \<Rightarrow> nat \<Rightarrow> real) \<Rightarrow> indicator_based_selection \<Rightarrow> individual list \<Rightarrow> 'w \<Rightarrow> individual list \<times> 'w" where
  "indicator_select contribution sel pop w = (indicator_selection contribution sel pop, w)"

subsection \<open>Notions used to state the properties\<close>

text \<open>
  A configuration is valid when the population size is not zero and the notion of success
  is one of the two recognised alternatives. An optimizer is configured with given values
  when reading its members back yields them.
\<close>

definition valid_configuration :: "nat \<Rightarrow> string \<Rightarrow> bool" where
  "valid_configuration n notionOfSuccess =
     (n \<noteq> 0 \<and> (notionOfSuccess = ''IndividualBased'' \<or> notionOfSuccess = ''PopulationBased''))"

definition configured_with :: "nat \<Rightarrow> real \<Rightarrow> real \<Rightarrow> real \<Rightarrow> mocma \<Rightarrow> bool" where
  "configured_with n penaltyFactor successThreshold' initialSigma st =
     (mu st = n \<and> m_penaltyFactor (m_evaluator st) = penaltyFactor
      \<and> m_individualSuccessThreshold st = successThreshold' \<and> m_initialSigma st = initialSigma)"

text \<open>
  A list is partitioned at \<open>k\<close> when its first \<open>k\<close> elements satisfy the
  predicate and the others do not.
\<close>

definition partitioned_at :: "('a \<Rightarrow> bool) \<Rightarrow> 'a list \<Rightarrow> nat \<Rightarrow> bool" where
  "partitioned_at p ys k = (k \<le> length ys \<and> list_all p (take k ys) \<and> list_all (\<lambda>y. \<not> p y) (drop k ys))"

text \<open>
  A population for \<open>mu = 2\<close>, as selection leaves it: four individuals told apart
  by their search points, parent 1 and offspring 0 (the two in the middle) ranked first
  and second and selected. \<open>example_unranked\<close> is the same population before
  selection has written ranks and flags.
\<close>

definition example_pop :: "individual list" where
  "example_pop =
     [(CMAIndividual 1 2 DEFAULT_SUCCESS_THRESHOLD 1)
        \<lparr>searchPoint := [1], penalizedFitness := [5, 5], unpenalizedFitness := [5, 5],
         rank := 2, selected := False\<rparr>,
      (CMAIndividual 1 2 DEFAULT_SUCCESS_THRESHOLD 1)
        \<lparr>searchPoint := [2], penalizedFitness := [1, 1], unpenalizedFitness := [1, 1],
         rank := 0, selected := True\<rparr>,
      (CMAIndividual 1 2 DEFAULT_SUCCESS_THRESHOLD 1)
        \<lparr>searchPoint := [3], penalizedFitness := [2, 2], unpenalizedFitness := [2, 2],
         rank := 1, selected := True\<rparr>,
      (CMAIndividual 1 2 DEFAULT_SUCCESS_THRESHOLD 1)
        \<lparr>searchPoint := [4], penalizedFitness := [9, 9], unpenalizedFitness := [9, 9],
         rank := 3, selected := False\<rparr>]"

definition example_unranked :: "individual list" where
  "example_unranked = map (\<lambda>x. x\<lparr>rank := 0, selected := False\<rparr>) example_pop"

text \<open>
  What one pass of the first loop of \<^verbatim>\<open>step\<close> leaves in the offspring slot, and
  the world in which pass \<open>i\<close> starts.
\<close>

definition make_offspring :: "'w operators \<Rightarrow> 'w objective \<Rightarrow> mocma \<Rightarrow> individual \<Rightarrow> 'w \<Rightarrow> individual \<times> 'w" where
  "make_offspring C f st parent w =
     (let (x, w1) = mutate C parent w;
          (result, w2) = evaluate C (m_evaluator st) f (searchPoint x) w1
      in (x\<lparr>age := 0, penalizedFitness := fst result, unpenalizedFitness := snd result\<rparr>, w2))"

definition world_at :: "'w operators \<Rightarrow> 'w objective \<Rightarrow> mocma \<Rightarrow> 'w \<Rightarrow> nat \<Rightarrow> 'w" where
  "world_at C f st w i = snd (fold (offspring_body C f st) [0..<i] (m_pop st, w))"

text \<open>The condition under which the success loops credit parent \<open>i\<close> and its offspring.\<close>

definition successful :: "bool \<Rightarrow> nat \<Rightarrow> individual list \<Rightarrow> nat \<Rightarrow> bool" where
  "successful useNewUpdate m pop i =
     (if useNewUpdate then selected (pop ! (m + i))
      else selected (pop ! (m + i)) \<and> rank (pop ! (m + i)) \<le> rank (pop ! i))"

text \<open>The body of whichever success loop the flag chooses.\<close>

definition success_body :: "bool \<Rightarrow> nat \<Rightarrow> nat \<Rightarrow> individual list \<Rightarrow> individual list" where
  "success_body useNewUpdate m = (if useNewUpdate then success_new_body m else success_old_body m)"

text \<open>What the last loop of \<^verbatim>\<open>step\<close> does to one survivor, and the pair it reports.\<close>

definition aged_and_updated :: "'w operators \<Rightarrow> individual \<Rightarrow> individual" where
  "aged_and_updated C x = update C (x\<lparr>age := age x + 1\<rparr>)"

definition result_pair :: "individual \<Rightarrow> real list \<times> real list" where
  "result_pair y = (searchPoint y, unpenalizedFitness y)"

text \<open>
  The population after selection (the evaluated individuals with their flags), after
  the success loops, and the survivors: the first \<open>mu\<close> slots after the partition.
\<close>

definition evaluated_population :: "'w operators \<Rightarrow> 'w objective \<Rightarrow> mocma \<Rightarrow> 'w \<Rightarrow> individual list" where
  "evaluated_population C f st w =
     (let (pop1, w1) = generate_offspring C f st w
      in fst (select C (m_selection st) pop1 w1))"

definition credited_population :: "'w operators \<Rightarrow> 'w objective \<Rightarrow> mocma \<Rightarrow> 'w \<Rightarrow> individual list" where
  "credited_population C f st w =
     determine_success (m_useNewUpdate st) (mu st) (evaluated_population C f st w)"

definition survivors :: "'w operators \<Rightarrow> 'w objective \<Rightarrow> mocma \<Rightarrow> 'w \<Rightarrow> individual list" where
  "survivors C f st w = take (mu st) (std_partition selected (credited_population C f st w))"

text \<open>What one pass of the loop of \<^verbatim>\<open>init\<close> appends to the population.\<close>

definition new_individual :: "'w operators \<Rightarrow> 'w objective \<Rightarrow> mocma \<Rightarrow> 'w \<Rightarrow> individual \<times> 'w" where
  "new_individual C f st w =
     (let (x, w1) = proposeStartingPoint f (replicate (numberOfVariables f) 0) w;
          (result, w2) = evaluate C (m_evaluator st) f x w1
      in ((CMAIndividual (numberOfVariables f) (numberOfObjectives f)
            (m_individualSuccessThreshold st) (m_initialSigma st))
            \<lparr>searchPoint := x, penalizedFitness := fst result, unpenalizedFitness := snd result\<rparr>, w2))"

text \<open>
  A run of \<open>n\<close> generations records, for each generation, the solution set and the
  step sizes of the survivors.
\<close>

fun trajectory :: "'w operators \<Rightarrow> 'w objective \<Rightarrow> nat \<Rightarrow> mocma \<Rightarrow> 'w \<Rightarrow> (solution_set \<times> real list) list option" where
  "trajectory C f 0 st w = Some []"
| "trajectory C f (Suc n) st w =
     (case step C f st w of None \<Rightarrow> None
      | Some (solutionSet, st', w') \<Rightarrow>
          (case trajectory C f n st' w' of None \<Rightarrow> None
           | Some rest \<Rightarrow> Some ((solutionSet, map stepSize (take (mu st') (m_pop st'))) # rest)))"

text \<open>
  An objective function and operators to run the optimizer on. The world is a counter
  of the random draws and evaluations so far. The objective has one variable and the two
  objectives \<open>x\<close> and \<open>1 - x\<close>, and proposes the origin as starting point;
  mutation takes the counter as its normal draw; update halves the step size; the
  evaluator applies no penalty; the
  indicator credits a point with the sum of its objective values.
\<close>

definition example_objective :: "nat objective" where
  "example_objective =
     \<lparr>numberOfObjectives = 2, numberOfVariables = 1,
      proposeStartingPoint = (\<lambda>x w. (map (\<lambda>v. 0) x, Suc w)),
      eval = (\<lambda>x w. ([sum_list x, 1 - sum_list x], Suc w))\<rparr>"

definition example_operators :: "nat operators" where
  "example_operators =
     \<lparr>mutate = (\<lambda>ind w. (CMAIndividual_mutate (replicate (length (searchPoint ind)) (real w)) ind, Suc w)),
      update = (\<lambda>ind. ind\<lparr>stepSize := stepSize ind / 2\<rparr>),
      evaluate = (\<lambda>ev f x w. (let (y, w') = eval f x w in ((y, y), w'))),
      select = indicator_select (\<lambda>fs i. sum_list (fs ! i))\<rparr>"

text \<open>
  An optimizer configured for \<open>mu = 2\<close> that holds the example population, and an
  individual as the constructor makes it.
\<close>

definition example_state :: mocma where
  "example_state =
     (init_config 2 DEFAULT_PENALTY_FACTOR DEFAULT_SUCCESS_THRESHOLD ''IndividualBased''
        DEFAULT_INITIAL_SIGMA MOCMA)\<lparr>m_pop := example_pop\<rparr>"

definition example_individual :: individual where
  "example_individual = CMAIndividual 1 2 DEFAULT_SUCCESS_THRESHOLD DEFAULT_INITIAL_SIGMA"

section \<open>Configuration: what \<^verbatim>\<open>init\<close> assigns\<close>

lemma init_config_fields:
  "m_mu (m_selection (init_config n pf th notion sg st)) = n"
  "m_penaltyFactor (m_evaluator (init_config n pf th notion sg st)) = pf"
  "m_individualSuccessThreshold (init_config n pf th notion sg st) = th"
  "m_initialSigma (init_config n pf th notion sg st) = sg"
  "m_pop (init_config n pf th notion sg st) = m_pop st"
  by (simp_all add: init_config_def setMu_def Let_def)

text \<open>
  Claim C9. When \<^verbatim>\<open>init\<close> is called with a notion-of-success string that is neither
  "IndividualBased" nor "PopulationBased", the flag \<^verbatim>\<open>m_useNewUpdate\<close> keeps the value
  it had before the call, while \<^verbatim>\<open>mu\<close>, the penalty factor, the success threshold and
  the initial sigma are assigned from the arguments (and the population is untouched).
\<close>

theorem init_unrecognised_notion_keeps_flag:
  assumes "notion \<noteq> ''IndividualBased''" and "notion \<noteq> ''PopulationBased''"
  shows "m_useNewUpdate (init_config n pf th notion sg st) = m_useNewUpdate st
       \<and> mu (init_config n pf th notion sg st) = n
       \<and> m_penaltyFactor (m_evaluator (init_config n pf th notion sg st)) = pf
       \<and> m_individualSuccessThreshold (init_config n pf th notion sg st) = th
       \<and> m_initialSigma (init_config n pf th notion sg st) = sg
       \<and> m_pop (init_config n pf th notion sg st) = m_pop st"
  using assms by (simp add: init_config_def setMu_def mu_def Let_def)

theorem init_unrecognised_notion_keeps_flag_witness:
  "''Bogus'' \<noteq> ''IndividualBased'' \<and> ''Bogus'' \<noteq> ''PopulationBased''
   \<and> m_useNewUpdate (init_config 7 (1/2) (1/4) ''Bogus'' 3 (MOCMA\<lparr>m_useNewUpdate := True\<rparr>)) = True
   \<and> mu (init_config 7 (1/2) (1/4) ''Bogus'' 3 (MOCMA\<lparr>m_useNewUpdate := True\<rparr>)) = 7
   \<and> m_initialSigma (init_config 7 (1/2) (1/4) ''Bogus'' 3 (MOCMA\<lparr>m_useNewUpdate := True\<rparr>)) = 3"
  using init_unrecognised_notion_keeps_flag
          [of "''Bogus''" 7 "1/2" "1/4" 3 "MOCMA\<lparr>m_useNewUpdate := True\<rparr>"]
  by simp


section \<open>Serialization\<close>

lemma stored_eq:
  "stored src = [PopItem (m_pop src), EvaluatorItem (m_evaluator src), SelectionItem (m_selection src), BoolItem (m_useNewUpdate src)]"
  by (simp add: stored_def serialize_def)

text \<open>
  Claim C10. \<^verbatim>\<open>serialize\<close> archives exactly four members, the population, the
  evaluator, the selection operator and \<^verbatim>\<open>m_useNewUpdate\<close>. Loading what one
  optimizer stored into another succeeds and takes these four from the stored optimizer,
  while \<^verbatim>\<open>m_individualSuccessThreshold\<close> and \<^verbatim>\<open>m_initialSigma\<close> keep the
  values the destination had before.
\<close>

theorem serialize_omits_threshold_and_sigma:
  "stored src = [PopItem (m_pop src), EvaluatorItem (m_evaluator src),
                 SelectionItem (m_selection src), BoolItem (m_useNewUpdate src)]
   \<and> (\<exists>dst'. load (stored src) dst = Some dst'
        \<and> m_pop dst' = m_pop src
        \<and> m_evaluator dst' = m_evaluator src
        \<and> m_selection dst' = m_selection src
        \<and> m_useNewUpdate dst' = m_useNewUpdate src
        \<and> m_individualSuccessThreshold dst' = m_individualSuccessThreshold dst
        \<and> m_initialSigma dst' = m_initialSigma dst)"
  by (simp add: stored_eq load_def serialize_def)

text \<open>So storing and loading is not a round trip of the whole configuration.\<close>

lemma load_stored_not_identity:
  "load (stored (init_config 5 (1/2) (1/4) ''PopulationBased'' 3 MOCMA)) MOCMA
     \<noteq> Some (init_config 5 (1/2) (1/4) ''PopulationBased'' 3 MOCMA)"
  by (simp add: stored_eq load_def serialize_def MOCMA_def init_config_def setMu_def Let_def
       DEFAULT_MU_def DEFAULT_PENALTY_FACTOR_def DEFAULT_SUCCESS_THRESHOLD_def DEFAULT_NOTION_OF_SUCCESS_def DEFAULT_INITIAL_SIGMA_def)


section \<open>Configuration is not validated\<close>

text \<open>
  Claim C7, as stated, asks that an invalid configuration, such as \<open>mu = 0\<close> or an
  unrecognised notion of success, is rejected when the optimizer is configured. It is
  not: \<^verbatim>\<open>init\<close> has no check and no way to report one. Configuring the default
  optimizer with \<open>mu = 0\<close> and the notion "Bogus" returns an optimizer configured
  with \<open>mu = 0\<close>.
\<close>

theorem init_accepts_invalid_configuration:
  "\<not> valid_configuration 0 ''Bogus''
   \<and> configured_with 0 DEFAULT_PENALTY_FACTOR DEFAULT_SUCCESS_THRESHOLD DEFAULT_INITIAL_SIGMA
        (init_config 0 DEFAULT_PENALTY_FACTOR DEFAULT_SUCCESS_THRESHOLD ''Bogus'' DEFAULT_INITIAL_SIGMA MOCMA)"
  by (simp add: valid_configuration_def configured_with_def mu_def init_config_fields)

text \<open>
  Claim C7, amended. \<^verbatim>\<open>init\<close> validates nothing: for every population size
  (zero included), every notion-of-success string and all three real parameters it
  completes, and the optimizer is then configured with exactly the values passed.
\<close>

theorem init_never_rejects:
  "configured_with n pf th sg (init_config n pf th notion sg st)"
  by (simp add: configured_with_def mu_def init_config_fields)


section \<open>The partition of the population\<close>

lemma partition_fwd_spec:
  "(\<forall>i. first \<le> i \<and> i < partition_fwd p xs first last' \<longrightarrow> p (xs ! i))
   \<and> (partition_fwd p xs first last' < last' \<longrightarrow> \<not> p (xs ! partition_fwd p xs first last'))"
proof (induction p xs first last' rule: partition_fwd.induct)
  case (1 p xs first last')
  show ?case
  proof (cases "first < last' \<and> p (xs ! first)")
    case True
    then have eq: "partition_fwd p xs first last' = partition_fwd p xs (Suc first) last'"
      by (subst partition_fwd.simps) simp
    from 1[OF True] True show ?thesis unfolding eq
      by (metis Suc_leI le_neq_implies_less)
  next
    case False
    have eq: "partition_fwd p xs first last' = first"
      by (subst partition_fwd.simps) (use False in auto)
    from False show ?thesis unfolding eq by auto
  qed
qed

lemma partition_bwd_spec:
  "(\<forall>i. partition_bwd p xs first last' < i \<and> i \<le> last' \<longrightarrow> \<not> p (xs ! i))
   \<and> (first < partition_bwd p xs first last' \<longrightarrow> p (xs ! partition_bwd p xs first last'))
   \<and> (first \<le> last' \<longrightarrow> first \<le> partition_bwd p xs first last')"
proof (induction p xs first last' rule: partition_bwd.induct)
  case (1 p xs first last')
  show ?case
  proof (cases "first < last' \<and> \<not> p (xs ! last')")
    case True
    then have eq: "partition_bwd p xs first last' = partition_bwd p xs first (last' - 1)"
      by (subst partition_bwd.simps) simp
    have ih: "(\<forall>i. partition_bwd p xs first (last' - 1) < i \<and> i \<le> last' - 1 \<longrightarrow> \<not> p (xs ! i))"
      "first < partition_bwd p xs first (last' - 1) \<longrightarrow> p (xs ! partition_bwd p xs first (last' - 1))"
      "first \<le> last' - 1 \<longrightarrow> first \<le> partition_bwd p xs first (last' - 1)"
      using 1[OF True] by blast+
    have "\<not> p (xs ! i)" if "partition_bwd p xs first (last' - 1) < i" "i \<le> last'" for i
    proof (cases "i = last'")
      case True
      with \<open>first < last' \<and> \<not> p (xs ! last')\<close> show ?thesis by simp
    next
      case False
      with that have "i \<le> last' - 1" by simp
      with ih(1) that show ?thesis by blast
    qed
    moreover have "first \<le> partition_bwd p xs first (last' - 1)"
    proof -
      from True have "first \<le> last' - 1" by auto
      with ih(3) show ?thesis by blast
    qed
    ultimately show ?thesis unfolding eq using ih(2) by blast

  next
    case False
    have eq: "partition_bwd p xs first last' = last'"
      by (subst partition_bwd.simps) (use False in auto)
    from False show ?thesis unfolding eq by auto
  qed
qed

lemma partitioned_at_iff:
  "partitioned_at p ys k \<longleftrightarrow> k \<le> length ys \<and> (\<forall>i<k. p (ys ! i)) \<and> (\<forall>i. k \<le> i \<and> i < length ys \<longrightarrow> \<not> p (ys ! i))"
proof -
  have a: "list_all p (take k ys) \<longleftrightarrow> (\<forall>i<k. p (ys ! i))" if "k \<le> length ys"
    using that by (auto simp: list_all_length)
  have b: "list_all (\<lambda>y. \<not> p y) (drop k ys) \<longleftrightarrow> (\<forall>i. k \<le> i \<and> i < length ys \<longrightarrow> \<not> p (ys ! i))" if "k \<le> length ys"
  proof
    assume l: "list_all (\<lambda>y. \<not> p y) (drop k ys)"
    show "\<forall>i. k \<le> i \<and> i < length ys \<longrightarrow> \<not> p (ys ! i)"
    proof (intro allI impI)
      fix i assume i: "k \<le> i \<and> i < length ys"
      then have "i - k < length (drop k ys)" by auto
      with l have "\<not> p (drop k ys ! (i - k))" by (simp add: list_all_length)
      with i that show "\<not> p (ys ! i)" by simp
    qed
  next
    assume "\<forall>i. k \<le> i \<and> i < length ys \<longrightarrow> \<not> p (ys ! i)"
    then show "list_all (\<lambda>y. \<not> p y) (drop k ys)" using that by (simp add: list_all_length)
  qed
  show ?thesis unfolding partitioned_at_def using a b by blast
qed

lemma partition_loop_correct:
  assumes "first \<le> last'" "last' \<le> length xs"
    and "\<forall>i<first. p (xs ! i)"
    and "\<forall>i. last' \<le> i \<and> i < length xs \<longrightarrow> \<not> p (xs ! i)"
  shows "length (fst (partition_loop p xs first last')) = length xs
       \<and> mset (fst (partition_loop p xs first last')) = mset xs
       \<and> snd (partition_loop p xs first last') \<le> length xs
       \<and> (\<forall>i < snd (partition_loop p xs first last'). p (fst (partition_loop p xs first last') ! i))
       \<and> (\<forall>i. snd (partition_loop p xs first last') \<le> i \<and> i < length xs
              \<longrightarrow> \<not> p (fst (partition_loop p xs first last') ! i))"
  using assms
proof (induction p xs first last' rule: partition_loop.induct)
  case (1 p xs first last')
  define first1 where "first1 = partition_fwd p xs first last'"
  define last1 where "last1 = partition_bwd p xs first1 (last' - 1)"
  have f1: "first \<le> first1" "first1 \<le> last'"
    using partition_fwd_ge[of first p xs last'] partition_fwd_le[of p xs first last'] "1.prems"(1)
    by (simp_all add: first1_def)
  have fwd: "\<forall>i. first \<le> i \<and> i < first1 \<longrightarrow> p (xs ! i)" "first1 < last' \<longrightarrow> \<not> p (xs ! first1)"
    using partition_fwd_spec[of first p xs last'] by (simp_all add: first1_def)
  have below: "p (xs ! i)" if "i < first1" for i
    using that fwd(1) "1.prems"(3) by (cases "i < first") auto
  show ?case
  proof (cases "first1 < last'")
    case False
    then have eq: "partition_loop p xs first last' = (xs, first1)"
      by (subst partition_loop.simps) (simp add: first1_def Let_def)
    from False f1 have "first1 = last'" by simp
    then show ?thesis unfolding eq using below "1.prems" by auto
  next
    case lt: True
    have bwd: "\<forall>i. last1 < i \<and> i \<le> last' - 1 \<longrightarrow> \<not> p (xs ! i)"
      "first1 < last1 \<longrightarrow> p (xs ! last1)" "first1 \<le> last1" "last1 \<le> last' - 1"
      using partition_bwd_spec[of p xs first1 "last' - 1"] partition_bwd_le[of p xs first1 "last' - 1"] lt
      by (simp_all add: last1_def)
    have above: "\<not> p (xs ! i)" if "last1 < i" "i < length xs" for i
      using that bwd(1) "1.prems"(4) by (cases "i \<le> last' - 1") auto
    show ?thesis
    proof (cases "first1 < last1")
      case False
      then have eq: "partition_loop p xs first last' = (xs, first1)"
        using lt by (subst partition_loop.simps) (simp add: first1_def last1_def Let_def)
      from False bwd(3) have e: "last1 = first1" by simp
      have "\<not> p (xs ! i)" if "first1 \<le> i" "i < length xs" for i
        using that above e fwd(2) lt by (cases "i = first1") auto
      then show ?thesis unfolding eq using below f1 "1.prems"(2) by auto
    next
      case sw: True
      let ?xs' = "iter_swap xs first1 last1"
      have eq: "partition_loop p xs first last' = partition_loop p ?xs' (Suc first1) last1"
        using lt sw by (subst partition_loop.simps) (simp add: first1_def last1_def Let_def)
      have len: "last1 < length xs" "first1 < length xs" using bwd(4) lt "1.prems"(2) sw by auto
      have l': "length ?xs' = length xs" by (simp add: iter_swap_def)
      have m': "mset ?xs' = mset xs" using len by (simp add: iter_swap_def mset_swap)
      have nth': "?xs' ! i = (if i = last1 then xs ! first1 else if i = first1 then xs ! last1 else xs ! i)"
        if "i < length xs" for i using that len by (auto simp: iter_swap_def nth_list_update)
      have p1: "Suc first1 \<le> last1" using sw by simp
      have p2: "last1 \<le> length ?xs'" using len l' by simp
      have p3: "\<forall>i<Suc first1. p (?xs' ! i)"
      proof (intro allI impI)
        fix i assume "i < Suc first1"
        then show "p (?xs' ! i)" using nth'[of i] len sw below[of i] bwd(2) by (cases "i = first1") auto
      qed
      have p4: "\<forall>i. last1 \<le> i \<and> i < length ?xs' \<longrightarrow> \<not> p (?xs' ! i)"
      proof (intro allI impI)
        fix i assume "last1 \<le> i \<and> i < length ?xs'"
        then show "\<not> p (?xs' ! i)" using nth'[of i] l' sw above[of i] fwd(2) lt by (cases "i = last1") auto
      qed
      have ih: "length (fst (partition_loop p ?xs' (Suc first1) last1)) = length ?xs'
       \<and> mset (fst (partition_loop p ?xs' (Suc first1) last1)) = mset ?xs'
       \<and> snd (partition_loop p ?xs' (Suc first1) last1) \<le> length ?xs'
       \<and> (\<forall>i < snd (partition_loop p ?xs' (Suc first1) last1). p (fst (partition_loop p ?xs' (Suc first1) last1) ! i))
       \<and> (\<forall>i. snd (partition_loop p ?xs' (Suc first1) last1) \<le> i \<and> i < length ?xs'
              \<longrightarrow> \<not> p (fst (partition_loop p ?xs' (Suc first1) last1) ! i))"
        using "1.IH"[OF first1_def _ last1_def _ p1 p2 p3 p4] lt sw by simp
      show ?thesis unfolding eq using ih l' m' by simp
    qed
  qed
qed

lemma std_partition_correct:
  "length (std_partition p xs) = length xs \<and> mset (std_partition p xs) = mset xs
   \<and> partitioned_at p (std_partition p xs) (length (filter p xs))
   \<and> filter p (std_partition p xs) = take (length (filter p xs)) (std_partition p xs)"
proof -
  let ?ys = "std_partition p xs" and ?k = "snd (partition_loop p xs 0 (length xs))"
  have h3: "\<forall>i<0. p (xs ! i)" by simp
  have h4: "\<forall>i. length xs \<le> i \<and> i < length xs \<longrightarrow> \<not> p (xs ! i)" by auto
  note c0 = partition_loop_correct[OF le0 order_refl h3 h4]
  have c: "length ?ys = length xs" "mset ?ys = mset xs" "?k \<le> length xs"
    "\<forall>i < ?k. p (?ys ! i)" "\<forall>i. ?k \<le> i \<and> i < length xs \<longrightarrow> \<not> p (?ys ! i)"
    unfolding std_partition_def using c0 by blast+
  have pa: "partitioned_at p ?ys ?k" using c by (simp add: partitioned_at_iff)
  have "filter p ?ys = filter p (take ?k ?ys) @ filter p (drop ?k ?ys)"
    by (metis append_take_drop_id filter_append)
  also have "\<dots> = take ?k ?ys" using pa
    by (simp add: partitioned_at_def list_all_iff)
  finally have fe: "filter p ?ys = take ?k ?ys" .
  then have "length (filter p ?ys) = ?k" using c by simp
  moreover have "length (filter p ?ys) = length (filter p xs)"
    using c(2) by (metis mset_filter size_mset)
  ultimately show ?thesis using pa c fe by simp
qed


lemma std_partition_example:
  "map searchPoint (std_partition selected example_pop) = [[3], [2], [1], [4]]"
  by (simp add: std_partition_def example_pop_def CMAIndividual_def partition_loop.simps
        partition_fwd.simps partition_bwd.simps iter_swap_def Let_def)

text \<open>
  Claim C1, as stated, has the partition keep the relative order of the survivors. On
  the example population, which selection produces for \<open>mu = 2\<close>, the survivors
  stand in the order 2, 3 before the partition and occupy the first two slots in the
  order 3, 2 after it.
\<close>

theorem partition_reverses_survivors:
  "map searchPoint (filter selected example_pop) = [[2], [3]]
   \<and> map searchPoint (take 2 (std_partition selected example_pop)) = [[3], [2]]"
proof -
  have "map searchPoint (take 2 (std_partition selected example_pop))
          = take 2 (map searchPoint (std_partition selected example_pop))"
    by (simp add: take_map)
  then show ?thesis
    by (simp add: std_partition_example) (simp add: example_pop_def CMAIndividual_def)
qed

text \<open>
  Claim C1, amended. The partition permutes the population and moves the selected
  individuals in front of the others: when exactly \<open>m\<close> individuals are selected they
  occupy the indices \<open>[0, m)\<close>, the first \<open>m\<close> slots hold exactly the selected
  individuals, and no slot from \<open>m\<close> on holds a selected one. Nothing is said about
  the order of the survivors among themselves.
\<close>

theorem partition_moves_selected_to_front:
  assumes "length (filter selected pop) = m"
  shows "length (std_partition selected pop) = length pop
       \<and> mset (std_partition selected pop) = mset pop
       \<and> list_all selected (take m (std_partition selected pop))
       \<and> list_all (\<lambda>x. \<not> selected x) (drop m (std_partition selected pop))
       \<and> mset (take m (std_partition selected pop)) = mset (filter selected pop)"
proof -
  note c = std_partition_correct[of selected pop]
  have "mset (take m (std_partition selected pop)) = mset (filter selected (std_partition selected pop))"
    using c assms by simp
  also have "\<dots> = mset (filter selected pop)"
    using c by (metis mset_filter)
  finally show ?thesis using c assms by (simp add: partitioned_at_def)
qed

theorem partition_moves_selected_to_front_witness:
  "length (filter selected example_pop) = 2
   \<and> list_all selected (take 2 (std_partition selected example_pop))
   \<and> mset (take 2 (std_partition selected example_pop)) = mset (filter selected example_pop)"
proof -
  have h: "length (filter selected example_pop) = 2"
    by (simp add: example_pop_def CMAIndividual_def)
  show ?thesis using h partition_moves_selected_to_front[OF h] by simp
qed


section \<open>The selection operator retains exactly \<open>mu\<close> individuals\<close>

lemma fronts_concat:
  "distinct rest \<Longrightarrow> distinct (concat (fronts pop rest)) \<and> set (concat (fronts pop rest)) = set rest
     \<and> length (concat (fronts pop rest)) = length rest"
proof (induction pop rest rule: fronts.induct)
  case (1 pop rest)
  show ?case
  proof (cases "rest = []")
    case True
    then have "fronts pop rest = []" by (subst fronts.simps) simp
    then show ?thesis using True by simp
  next
    case False
    let ?F = "front_of pop rest"
    let ?rest' = "filter (\<lambda>i. i \<notin> set ?F) rest"
    have eq: "fronts pop rest = ?F # fronts pop ?rest'"
      using False by (subst fronts.simps) simp
    have d: "distinct ?rest'" using "1.prems" by simp
    note ih = "1.IH"[OF False d]
    have dF: "distinct ?F" using "1.prems" by (simp add: front_of_def)
    have sub: "set ?F \<subseteq> set rest" by (rule front_of_subset)
    have un: "set ?F \<union> set ?rest' = set rest" using sub by auto
    have disj0: "set ?F \<inter> set ?rest' = {}" by auto
    have len: "length ?F + length ?rest' = length rest"
    proof -
      have "card (set ?F \<union> set ?rest') = card (set ?F) + card (set ?rest')"
        by (rule card_Un_disjoint[OF finite_set finite_set disj0])
      then have "card (set rest) = length ?F + length ?rest'"
        unfolding un distinct_card[OF dF] distinct_card[OF d] .
      then show ?thesis unfolding distinct_card[OF "1.prems"] by (rule sym)
    qed
    have ih1: "distinct (concat (fronts pop ?rest'))" and ih2: "set (concat (fronts pop ?rest')) = set ?rest'"
      and ih3: "length (concat (fronts pop ?rest')) = length ?rest'" using ih by blast+
    have disj: "set ?F \<inter> set (concat (fronts pop ?rest')) = {}" unfolding ih2 by (rule disj0)
    have g1: "distinct (concat (?F # fronts pop ?rest'))"
      unfolding concat.simps distinct_append using dF ih1 disj by blast
    have g2: "set (concat (?F # fronts pop ?rest')) = set rest"
      unfolding concat.simps set_append ih2 by (rule un)
    have g3: "length (concat (?F # fronts pop ?rest')) = length rest"
      unfolding concat.simps length_append ih3 by (rule len)
    show ?thesis unfolding eq using g1 g2 g3 by blast
  qed
qed

lemma remove_at_props:
  "set (remove_at k xs) \<subseteq> set xs" "distinct xs \<Longrightarrow> distinct (remove_at k xs)"
proof -
  show "set (remove_at k xs) \<subseteq> set xs"
    by (auto simp: remove_at_def dest: in_set_takeD in_set_dropD)
  show "distinct xs \<Longrightarrow> distinct (remove_at k xs)"
    using set_take_disj_set_drop_if_distinct[of xs k "Suc k"]
    by (auto simp: remove_at_def)
qed

lemma prune_props:
  "length (prune c pop slots F) = min (length F) slots
   \<and> set (prune c pop slots F) \<subseteq> set F
   \<and> (distinct F \<longrightarrow> distinct (prune c pop slots F))"
proof (induction c pop slots F rule: prune.induct)
  case (1 c pop slots F)
  show ?case
  proof (cases "length F \<le> slots")
    case True
    then have "prune c pop slots F = F" by (subst prune.simps) simp
    then show ?thesis using True by simp
  next
    case False
    let ?k = "leastContributor c (map (\<lambda>i. penalizedFitness (pop ! i)) F)"
    have eq: "prune c pop slots F = prune c pop slots (remove_at ?k F)"
      using False by (subst prune.simps) simp
    from False have "F \<noteq> []" by auto
    then have k: "?k < length F"
      using leastContributor_less[of "map (\<lambda>i. penalizedFitness (pop ! i)) F" c] by simp
    have l: "length (remove_at ?k F) = length F - 1" using k by (rule length_remove_at)
    note ih = "1.IH"[OF False]
    have g1: "length (prune c pop slots (remove_at ?k F)) = min (length F) slots"
      using ih l False by simp
    have g2: "set (prune c pop slots (remove_at ?k F)) \<subseteq> set F"
      using ih remove_at_props(1)[of ?k F] by blast
    have g3: "distinct F \<longrightarrow> distinct (prune c pop slots (remove_at ?k F))"
      using ih remove_at_props(2)[of F ?k] by blast
    show ?thesis unfolding eq using g1 g2 g3 by blast
  qed
qed

lemma survivors_of_props:
  "distinct (concat Fs) \<Longrightarrow>
   length (survivors_of c pop slots Fs) = min slots (length (concat Fs))
   \<and> set (survivors_of c pop slots Fs) \<subseteq> set (concat Fs)
   \<and> distinct (survivors_of c pop slots Fs)"
proof (induction Fs arbitrary: slots)
  case Nil
  then show ?case by simp
next
  case (Cons F Fs)
  show ?case
  proof (cases "length F \<le> slots")
    case True
    have "distinct (concat Fs)" using Cons.prems by simp
    note ih = Cons.IH[OF this, of "slots - length F"]
    have e: "survivors_of c pop slots (F # Fs) = F @ survivors_of c pop (slots - length F) Fs"
      using True by simp
    have g1: "length (F @ survivors_of c pop (slots - length F) Fs) = min slots (length (concat (F # Fs)))"
      using ih True by simp
    have g2: "set (F @ survivors_of c pop (slots - length F) Fs) \<subseteq> set (concat (F # Fs))"
      using ih by auto
    have "set F \<inter> set (survivors_of c pop (slots - length F) Fs) = {}"
      using ih Cons.prems by auto
    then have g3: "distinct (F @ survivors_of c pop (slots - length F) Fs)"
      using ih Cons.prems by simp
    show ?thesis unfolding e using g1 g2 g3 by blast
  next
    case False
    have e: "survivors_of c pop slots (F # Fs) = prune c pop slots F"
      using False by simp
    note p = prune_props[of c pop slots F]
    have g1: "length (prune c pop slots F) = min slots (length (concat (F # Fs)))"
      using p False by simp
    have g2: "set (prune c pop slots F) \<subseteq> set (concat (F # Fs))"
      using p by auto
    have g3: "distinct (prune c pop slots F)" using p Cons.prems by simp
    show ?thesis unfolding e using g1 g2 g3 by blast
  qed
qed

lemma indicator_selection_exact:
  "length (indicator_selection c sel pop) = length pop
   \<and> length (filter selected (indicator_selection c sel pop)) = min (m_mu sel) (length pop)"
proof -
  let ?Fs = "fronts pop [0..<length pop]"
  let ?S = "survivors_of c pop (m_mu sel) ?Fs"
  have f: "distinct (concat ?Fs)" "set (concat ?Fs) = {0..<length pop}" "length (concat ?Fs) = length pop"
    using fronts_concat[of "[0..<length pop]" pop] by simp_all
  have s: "length ?S = min (m_mu sel) (length pop)" "set ?S \<subseteq> {0..<length pop}" "distinct ?S"
    using survivors_of_props[OF f(1), of c pop "m_mu sel"] f by simp_all
  have "filter selected (indicator_selection c sel pop)
        = map (\<lambda>i. (pop ! i)\<lparr>rank := rank_in ?Fs i, selected := (i \<in> set ?S)\<rparr>) (filter (\<lambda>i. i \<in> set ?S) [0..<length pop])"
    by (simp add: indicator_selection_def Let_def filter_map comp_def)
  then have "length (filter selected (indicator_selection c sel pop)) = length (filter (\<lambda>i. i \<in> set ?S) [0..<length pop])"
    by simp
  also have "\<dots> = card ({i. i \<in> set ?S} \<inter> set [0..<length pop])"
    by (simp add: distinct_length_filter)
  also have "{i. i \<in> set ?S} \<inter> set [0..<length pop] = set ?S" using s(2) by auto
  also have "card (set ?S) = length ?S" using s(3) by (simp add: distinct_card)
  finally show ?thesis using s(1) by (simp add: indicator_selection_def Let_def)
qed


lemma upt4: "[0..<4] = [0, 1, 2, 3]" by code_simp

lemma ex_front0: "front_of example_unranked [0, 1, 2, 3] = [1]"
  by (simp add: front_of_def dominates_def example_unranked_def example_pop_def CMAIndividual_def)

lemma ex_front1: "front_of example_unranked [0, 2, 3] = [2]"
  by (simp add: front_of_def dominates_def example_unranked_def example_pop_def CMAIndividual_def)

lemma ex_front2: "front_of example_unranked [0, 3] = [0]"
  by (simp add: front_of_def dominates_def example_unranked_def example_pop_def CMAIndividual_def)

lemma ex_front3: "front_of example_unranked [3] = [3]"
  by (simp add: front_of_def dominates_def example_unranked_def example_pop_def CMAIndividual_def)

lemma ex_fronts: "fronts example_unranked [0, 1, 2, 3] = [[1], [2], [0], [3]]"
proof -
  have 1: "fronts example_unranked [0, 1, 2, 3] = [1] # fronts example_unranked [0, 2, 3]"
    by (subst fronts.simps) (simp only: ex_front0, simp)
  have 2: "fronts example_unranked [0, 2, 3] = [2] # fronts example_unranked [0, 3]"
    by (subst fronts.simps) (simp only: ex_front1, simp)
  have 3: "fronts example_unranked [0, 3] = [0] # fronts example_unranked [3]"
    by (subst fronts.simps) (simp only: ex_front2, simp)
  have 4: "fronts example_unranked [3] = [3] # fronts example_unranked []"
    by (subst fronts.simps) (simp only: ex_front3, simp)
  have 5: "fronts example_unranked [] = []"
    by (subst fronts.simps) simp
  show ?thesis unfolding 1 2 3 4 5 ..
qed

lemma ex_survivors: "survivors_of (\<lambda>fs i. sum_list (fs ! i)) example_unranked 2 [[1], [2], [0], [3]] = [1, 2]"
proof -
  have l: "leastContributor (\<lambda>fs i. sum_list (fs ! i)) [penalizedFitness (example_unranked ! 0)] = 0"
    by (simp add: leastContributor_def first_least_def)
  have "prune (\<lambda>fs i. sum_list (fs ! i)) example_unranked 0 [] = []"
    by (subst prune.simps) simp
  then have "prune (\<lambda>fs i. sum_list (fs ! i)) example_unranked 0 [0] = []"
    by (subst prune.simps) (simp add: l remove_at_def)
  then show ?thesis by simp
qed

text \<open>
  On the example the selection operator ranks parent 1 first and offspring 0 second and
  selects the two: it turns \<open>example_unranked\<close> into \<open>example_pop\<close>.
\<close>

lemma ex_selection:
  "indicator_selection (\<lambda>fs i. sum_list (fs ! i)) \<lparr>m_mu = 2\<rparr> example_unranked = example_pop"
proof -
  have l: "length example_unranked = 4" by (simp add: example_unranked_def example_pop_def)
  have r: "rank_in [[1], [2], [0], [3]] 0 = 2" "rank_in [[1], [2], [0], [3]] 1 = 0"
     "rank_in [[1], [2], [0], [3]] 2 = 1" "rank_in [[1], [2], [0], [3]] 3 = 3"
    by (simp_all add: rank_in_def)
  have "indicator_selection (\<lambda>fs i. sum_list (fs ! i)) \<lparr>m_mu = 2\<rparr> example_unranked
        = map (\<lambda>i. (example_unranked ! i)\<lparr>rank := rank_in [[1], [2], [0], [3]] i, selected := (i \<in> set [1, 2])\<rparr>) [0, 1, 2, 3]"
    unfolding indicator_selection_def Let_def l upt4 ex_fronts
    by (simp only: ex_survivors indicator_based_selection.simps)
  also have "\<dots> = example_pop"
    unfolding list.map r by (simp add: example_unranked_def example_pop_def CMAIndividual_def)
  finally show ?thesis .
qed

section \<open>The loops of \<^verbatim>\<open>step\<close> and \<^verbatim>\<open>init\<close>\<close>

lemma determine_success_fold:
  "determine_success b m pop = fold (success_body b m) [0..<m] pop"
  by (simp add: determine_success_def success_body_def)

lemma credit_fields [simp]:
  "selected (credit x) = selected x" "rank (credit x) = rank x"
  "noSuccessfulOffspring (credit x) = noSuccessfulOffspring x + 1"
  by (simp_all add: credit_def)

lemma success_body_eq:
  "success_body b m i pop =
     (if successful b m pop i then pop[m + i := credit (pop ! (m + i)), i := credit (pop[m + i := credit (pop ! (m + i))] ! i)]
      else pop)"
  by (simp add: success_body_def success_new_body_def success_old_body_def successful_def Let_def)

lemma success_prefix:
  assumes "2 * m \<le> length pop" "n \<le> m"
  shows "length (fold (success_body b m) [0..<n] pop) = length pop
    \<and> (\<forall>j < length pop. fold (success_body b m) [0..<n] pop ! j =
         (if j < n \<and> successful b m pop j then credit (pop ! j)
          else if m \<le> j \<and> j < m + n \<and> successful b m pop (j - m) then credit (pop ! j)
          else pop ! j))"
  using assms(2)
proof (induction n)
  case 0
  then show ?case by auto
next
  case (Suc n)
  let ?pop = "fold (success_body b m) [0..<n] pop"
  have ih: "length ?pop = length pop"
    "\<And>j. j < length pop \<Longrightarrow> ?pop ! j =
         (if j < n \<and> successful b m pop j then credit (pop ! j)
          else if m \<le> j \<and> j < m + n \<and> successful b m pop (j - m) then credit (pop ! j)
          else pop ! j)"
    using Suc by simp_all
  have n: "n < m" "m + n < length pop" "n < length pop" using Suc.prems assms(1) by simp_all
  have an: "?pop ! n = pop ! n" using ih(2)[of n] n by simp
  have amn: "?pop ! (m + n) = pop ! (m + n)" using ih(2)[of "m + n"] n by simp
  have same: "successful b m ?pop n = successful b m pop n"
    using an amn by (cases b) (simp_all add: successful_def)
  have step: "fold (success_body b m) [0..<Suc n] pop = success_body b m n ?pop" by simp
  show ?case
  proof (cases "successful b m pop n")
    case False
    then have e: "fold (success_body b m) [0..<Suc n] pop = ?pop"
      unfolding step by (simp add: success_body_eq same)
    show ?thesis unfolding e using ih False n
      by (auto simp: less_Suc_eq)
  next
    case True
    then have e: "fold (success_body b m) [0..<Suc n] pop
                  = ?pop[m + n := credit (pop ! (m + n)), n := credit (pop ! n)]"
      unfolding step using n ih(1) by (simp add: success_body_eq same an amn)
    show ?thesis unfolding e using ih True n
      by (auto simp: less_Suc_eq nth_list_update)
  qed
qed

lemma success_credit:
  assumes "2 * m \<le> length pop" "i < m"
  shows "determine_success b m pop ! i =
           (if successful b m pop i then credit (pop ! i) else pop ! i)
       \<and> determine_success b m pop ! (m + i) =
           (if successful b m pop i then credit (pop ! (m + i)) else pop ! (m + i))"
  using success_prefix[OF assms(1) le_refl, of b] assms
  by (simp add: determine_success_fold)

lemma offspring_body_eq:
  assumes "mu st + i < length pop"
  shows "offspring_body C f st i (pop, w) =
           (pop[mu st + i := fst (make_offspring C f st (pop ! i) w)],
            snd (make_offspring C f st (pop ! i) w))"
  using assms
  by (simp add: offspring_body_def make_offspring_def Let_def split_beta
        PENALIZED_RESULT_def UNPENALIZED_RESULT_def)

lemma offspring_prefix:
  assumes "2 * mu st \<le> length (m_pop st)" "n \<le> mu st"
  shows "length (fst (fold (offspring_body C f st) [0..<n] (m_pop st, w))) = length (m_pop st)
    \<and> (\<forall>j < length (m_pop st). fst (fold (offspring_body C f st) [0..<n] (m_pop st, w)) ! j =
         (if mu st \<le> j \<and> j < mu st + n
          then fst (make_offspring C f st (m_pop st ! (j - mu st)) (world_at C f st w (j - mu st)))
          else m_pop st ! j))"
  using assms(2)
proof (induction n)
  case 0
  then show ?case by auto
next
  case (Suc n)
  let ?r = "fold (offspring_body C f st) [0..<n] (m_pop st, w)"
  have ih: "length (fst ?r) = length (m_pop st)"
    "\<And>j. j < length (m_pop st) \<Longrightarrow> fst ?r ! j =
         (if mu st \<le> j \<and> j < mu st + n
          then fst (make_offspring C f st (m_pop st ! (j - mu st)) (world_at C f st w (j - mu st)))
          else m_pop st ! j)"
    using Suc by simp_all
  have n: "n < mu st" "mu st + n < length (m_pop st)" "n < length (m_pop st)"
    using Suc.prems assms(1) by simp_all
  have an: "fst ?r ! n = m_pop st ! n" using ih(2)[of n] n by simp
  have r: "?r = (fst ?r, world_at C f st w n)" by (simp add: world_at_def)
  have "fold (offspring_body C f st) [0..<Suc n] (m_pop st, w) = offspring_body C f st n ?r" by simp
  also have "\<dots> = offspring_body C f st n (fst ?r, world_at C f st w n)" using r by simp
  also have "\<dots> = ((fst ?r)[mu st + n := fst (make_offspring C f st (m_pop st ! n) (world_at C f st w n))],
                   snd (make_offspring C f st (m_pop st ! n) (world_at C f st w n)))"
    using offspring_body_eq[of st n "fst ?r" C f] n ih(1) an by simp
  finally have e: "fold (offspring_body C f st) [0..<Suc n] (m_pop st, w) =
      ((fst ?r)[mu st + n := fst (make_offspring C f st (m_pop st ! n) (world_at C f st w n))],
                   snd (make_offspring C f st (m_pop st ! n) (world_at C f st w n)))" .
  show ?case unfolding e using ih n
    by (auto simp: nth_list_update less_Suc_eq)
qed

lemma survivors_prefix:
  assumes "n \<le> length pop"
  shows "fold (survivor_body C) [0..<n] (pop, []) =
          (map (aged_and_updated C) (take n pop) @ drop n pop,
           map (\<lambda>x. result_pair (aged_and_updated C x)) (take n pop))"
  using assms
proof (induction n)
  case 0
  then show ?case by simp
next
  case (Suc n)
  then have n: "n < length pop" by simp
  let ?l = "map (aged_and_updated C) (take n pop) @ drop n pop"
  have len: "length (map (aged_and_updated C) (take n pop)) = n" using n by simp
  have nth: "?l ! n = pop ! n" using n len by (simp add: nth_append)
  have upd: "?l[n := y] = map (aged_and_updated C) (take n pop) @ y # drop (Suc n) pop" for y
    using n len by (simp add: list_update_append Cons_nth_drop_Suc[symmetric])
  have nth2: "(map (aged_and_updated C) (take n pop) @ y # zs) ! n = y" for y zs
    using len by (metis nth_append_length)
  have "fold (survivor_body C) [0..<Suc n] (pop, []) =
        survivor_body C n (?l, map (\<lambda>x. result_pair (aged_and_updated C x)) (take n pop))"
    using Suc by simp
  also have "\<dots> = (map (aged_and_updated C) (take (Suc n) pop) @ drop (Suc n) pop,
           map (\<lambda>x. result_pair (aged_and_updated C x)) (take (Suc n) pop))"
    using n nth upd nth2
    by (simp add: survivor_body_def Let_def take_Suc_conv_app_nth aged_and_updated_def result_pair_def
          del: length_map)
  finally show ?case .
qed

lemma update_survivors_eq:
  assumes "m \<le> length pop"
  shows "update_survivors C m pop =
          (map (aged_and_updated C) (take m pop) @ drop m pop,
           map (\<lambda>x. result_pair (aged_and_updated C x)) (take m pop))"
  using survivors_prefix[OF assms] by (simp add: update_survivors_def)

lemma init_body_eq:
  "init_body C f st i (pop, w) = (pop @ [fst (new_individual C f st w)], snd (new_individual C f st w))"
  by (simp add: init_body_def new_individual_def Let_def split_beta CMAIndividual_def
        PENALIZED_RESULT_def UNPENALIZED_RESULT_def)

lemma new_individual_stepSize: "stepSize (fst (new_individual C f st w)) = m_initialSigma st"
  by (simp add: new_individual_def Let_def split_beta CMAIndividual_def)

lemma init_fold:
  "\<exists>new. fst (fold (init_body C f st) [0..<n] (pop, w)) = pop @ new \<and> length new = n
        \<and> list_all (\<lambda>x. stepSize x = m_initialSigma st) new"
proof (induction n)
  case 0
  then show ?case by simp
next
  case (Suc n)
  then obtain new where new: "fst (fold (init_body C f st) [0..<n] (pop, w)) = pop @ new"
     "length new = n" "list_all (\<lambda>x. stepSize x = m_initialSigma st) new" by blast
  let ?r = "fold (init_body C f st) [0..<n] (pop, w)"
  have "fold (init_body C f st) [0..<Suc n] (pop, w) = init_body C f st n (fst ?r, snd ?r)" by simp
  also have "\<dots> = (pop @ (new @ [fst (new_individual C f st (snd ?r))]), snd (new_individual C f st (snd ?r)))"
    by (simp add: init_body_eq new)
  finally have "fst (fold (init_body C f st) [0..<Suc n] (pop, w)) = pop @ (new @ [fst (new_individual C f st (snd ?r))])"
    by simp
  moreover have "length (new @ [fst (new_individual C f st (snd ?r))]) = Suc n" using new by simp
  moreover have "list_all (\<lambda>x. stepSize x = m_initialSigma st) (new @ [fst (new_individual C f st (snd ?r))])"
    using new by (simp add: new_individual_stepSize)
  ultimately show ?case by blast
qed



section \<open>The example optimizer\<close>

lemma example_state_facts:
  "mu example_state = 2" "length example_pop = 4" "m_pop example_state = example_pop"
  "m_useNewUpdate example_state = False"
  by (simp_all add: example_state_def mu_def example_pop_def init_config_def setMu_def Let_def)

section \<open>Offspring generation\<close>

text \<open>
  Claim C4. After the first loop of \<^verbatim>\<open>step\<close>, for every \<open>i\<close> below
  \<open>mu\<close>: slot \<open>mu + i\<close> holds the mutated copy of parent \<open>i\<close> (mutated in the
  world in which pass \<open>i\<close> started) with its age reset to 0 and with the penalized and
  the unpenalized result of evaluating its search point stored on it; parent \<open>i\<close> is
  untouched; the world moves on to the next pass; and selection runs on the population so
  produced.
\<close>

theorem offspring_generated:
  assumes "2 * mu st \<le> length (m_pop st)" "i < mu st"
  shows "\<exists>x w1 result w2.
           mutate C (m_pop st ! i) (world_at C f st w i) = (x, w1)
         \<and> evaluate C (m_evaluator st) f (searchPoint x) w1 = (result, w2)
         \<and> fst (generate_offspring C f st w) ! (mu st + i)
             = x\<lparr>age := 0, penalizedFitness := fst result, unpenalizedFitness := snd result\<rparr>
         \<and> fst (generate_offspring C f st w) ! i = m_pop st ! i
         \<and> world_at C f st w (Suc i) = w2
         \<and> step C f st w = select_and_finish C st (generate_offspring C f st w)"
proof -
  obtain x w1 where m: "mutate C (m_pop st ! i) (world_at C f st w i) = (x, w1)"
    by (cases "mutate C (m_pop st ! i) (world_at C f st w i)") blast
  obtain result w2 where e: "evaluate C (m_evaluator st) f (searchPoint x) w1 = (result, w2)"
    by (cases "evaluate C (m_evaluator st) f (searchPoint x) w1") blast
  have mo: "make_offspring C f st (m_pop st ! i) (world_at C f st w i)
          = (x\<lparr>age := 0, penalizedFitness := fst result, unpenalizedFitness := snd result\<rparr>, w2)"
    by (simp add: make_offspring_def m e)
  note p = offspring_prefix[OF assms(1) le_refl, of C f w]
  have a: "fst (generate_offspring C f st w) ! (mu st + i) = x\<lparr>age := 0, penalizedFitness := fst result, unpenalizedFitness := snd result\<rparr>"
    using p assms mo by (simp add: generate_offspring_def)
  have b: "fst (generate_offspring C f st w) ! i = m_pop st ! i"
    using p assms by (simp add: generate_offspring_def)
  let ?r = "fold (offspring_body C f st) [0..<i] (m_pop st, w)"
  note q = offspring_prefix[OF assms(1), of i C f w]
  have li: "length (fst ?r) = length (m_pop st)" "fst ?r ! i = m_pop st ! i"
    using q assms by simp_all
  have "world_at C f st w (Suc i) = snd (offspring_body C f st i (fst ?r, world_at C f st w i))"
    by (simp add: world_at_def)
  also have "\<dots> = w2"
    using offspring_body_eq[of st i "fst ?r" C f] assms li mo by simp
  finally have c: "world_at C f st w (Suc i) = w2" .
  have d: "step C f st w = select_and_finish C st (generate_offspring C f st w)"
    using assms(1) by (simp add: step_def)
  show ?thesis using m e a b c d by blast
qed


theorem offspring_generated_witness:
  "2 * mu example_state \<le> length (m_pop example_state) \<and> 0 < mu example_state
   \<and> age (fst (generate_offspring example_operators example_objective example_state 0) ! 2) = 0
   \<and> fst (generate_offspring example_operators example_objective example_state 0) ! 0 = example_pop ! 0"
proof -
  have h: "2 * mu example_state \<le> length (m_pop example_state)" "0 < mu example_state"
    by (simp_all add: example_state_facts)
  from offspring_generated[OF h, of example_operators example_objective 0]
  show ?thesis using h by (auto simp: example_state_facts)
qed


section \<open>Initialisation and the starting point\<close>

text \<open>
  \<^verbatim>\<open>init\<close> for an objective function appends \<open>2 * mu\<close> individuals to the
  population, each with the configured initial sigma as step size, and its result does
  not depend on the starting point passed.
\<close>

lemma init_f_population:
  "\<exists>new. m_pop (fst (init_f C f sp st w)) = m_pop st @ new \<and> length new = 2 * mu st
        \<and> list_all (\<lambda>x. stepSize x = m_initialSigma st) new"
  using init_fold[of C f st "2 * mu st" "m_pop st" w]
  by (simp add: init_f_def split_beta)

lemma init_f_ignores_sp: "init_f C f sp st w = init_f C f sp' st w"
  by (simp add: init_f_def)

text \<open>
  Claim C6 has a supplied starting point used in place of the proposed one. With
  \<open>mu = 1\<close>, the objective that proposes the origin, and the starting point
  \<open>[5]\<close> supplied, both individuals start at the origin.
\<close>

theorem init_f_discards_starting_point:
  "map searchPoint (m_pop (fst (init_f example_operators example_objective [5]
      (init_config 1 DEFAULT_PENALTY_FACTOR DEFAULT_SUCCESS_THRESHOLD ''IndividualBased''
         DEFAULT_INITIAL_SIGMA MOCMA) 0))) = [[0], [0]]"
  by (simp add: init_f_def init_body_eq new_individual_def mu_def init_config_fields
        example_operators_def example_objective_def MOCMA_def split_beta Let_def
        CMAIndividual_def numeral_2_eq_2)


section \<open>The result of a generation\<close>

lemma generate_offspring_length:
  assumes "2 * mu st \<le> length (m_pop st)"
  shows "length (fst (generate_offspring C f st w)) = length (m_pop st)"
  using offspring_prefix[OF assms le_refl, of C f w] by (simp add: generate_offspring_def)

lemma determine_success_flags:
  assumes "2 * m \<le> length pop"
  shows "length (determine_success b m pop) = length pop
       \<and> map selected (determine_success b m pop) = map selected pop"
proof -
  note p = success_prefix[OF assms le_refl, of b]
  have l: "length (determine_success b m pop) = length pop"
    using p by (simp add: determine_success_fold)
  have "selected (determine_success b m pop ! j) = selected (pop ! j)" if "j < length pop" for j
    using p that by (simp add: determine_success_fold)
  then have "map selected (determine_success b m pop) = map selected pop"
    using l by (intro nth_equalityI) simp_all
  with l show ?thesis by blast
qed

lemma count_by_flags:
  "map p xs = map p ys \<Longrightarrow> length (filter p xs) = length (filter p ys)"
proof -
  assume a: "map p xs = map p ys"
  have "length (filter p zs) = length (filter (\<lambda>b. b) (map p zs))" for zs
    by (simp add: filter_map comp_def)
  then show ?thesis using a by metis
qed

lemma select_and_finish_eq:
  assumes "select C (m_selection st) pop1 w1 = (pop2, w2)" "2 * mu st \<le> length pop2"
    and "length (filter selected pop2) = mu st"
  shows "select_and_finish C st (pop1, w1) =
     Some (map (\<lambda>x. result_pair (aged_and_updated C x))
             (take (mu st) (std_partition selected (determine_success (m_useNewUpdate st) (mu st) pop2))),
           st\<lparr>m_pop := map (aged_and_updated C)
                     (take (mu st) (std_partition selected (determine_success (m_useNewUpdate st) (mu st) pop2)))
                   @ drop (mu st) (std_partition selected (determine_success (m_useNewUpdate st) (mu st) pop2))\<rparr>,
           w2)"
proof -
  let ?pop3 = "determine_success (m_useNewUpdate st) (mu st) pop2"
  let ?pop4 = "std_partition selected ?pop3"
  have l3: "length ?pop3 = length pop2" using determine_success_flags[OF assms(2)] by blast
  have l4: "length ?pop4 = length ?pop3" using std_partition_correct[of selected ?pop3] by blast
  have "mu st \<le> length ?pop4" using l3 l4 assms(2) by simp
  note u = update_survivors_eq[OF this, of C]
  show ?thesis using assms(1,2) u by (simp add: select_and_finish_def Let_def)
qed

lemma step_result:
  assumes "2 * mu st \<le> length (m_pop st)" and "select C = indicator_select contribution"
  shows "length (evaluated_population C f st w) = length (m_pop st)
       \<and> length (filter selected (evaluated_population C f st w)) = mu st
       \<and> length (survivors C f st w) = mu st
       \<and> mset (survivors C f st w) = mset (filter selected (credited_population C f st w))
       \<and> (\<exists>st' w'. step C f st w =
             Some (map (\<lambda>x. result_pair (aged_and_updated C x)) (survivors C f st w), st', w')
           \<and> take (mu st) (m_pop st') = map (aged_and_updated C) (survivors C f st w)
           \<and> length (m_pop st') = length (m_pop st) \<and> mu st' = mu st)"
proof -
  obtain pop1 w1 where g: "generate_offspring C f st w = (pop1, w1)"
    by (cases "generate_offspring C f st w") blast
  have l1: "length pop1 = length (m_pop st)"
    using generate_offspring_length[OF assms(1), of C f w] g by simp
  let ?pop2 = "indicator_selection contribution (m_selection st) pop1"
  have s: "select C (m_selection st) pop1 w1 = (?pop2, w1)"
    by (simp add: assms(2) indicator_select_def)
  have ev: "evaluated_population C f st w = ?pop2"
    by (simp add: evaluated_population_def g s)
  have l2: "length ?pop2 = length pop1" and c2: "length (filter selected ?pop2) = mu st"
    using indicator_selection_exact[of contribution "m_selection st" pop1] l1 assms(1)
    by (simp_all add: mu_def)
  have big: "2 * mu st \<le> length ?pop2" using l1 l2 assms(1) by simp
  let ?pop3 = "determine_success (m_useNewUpdate st) (mu st) ?pop2"
  have cr: "credited_population C f st w = ?pop3" by (simp add: credited_population_def ev)
  have l3: "length ?pop3 = length ?pop2" and f3: "map selected ?pop3 = map selected ?pop2"
    using determine_success_flags[OF big] by blast+
  have c3: "length (filter selected ?pop3) = mu st" using count_by_flags[OF f3] c2 by simp
  let ?pop4 = "std_partition selected ?pop3"
  note pc = std_partition_correct[of selected ?pop3]
  have l4: "length ?pop4 = length ?pop3" using pc by blast
  have t4: "filter selected ?pop4 = take (mu st) ?pop4" using pc c3 by simp
  have m4: "mset ?pop4 = mset ?pop3" using pc by blast
  have sv: "survivors C f st w = take (mu st) ?pop4" by (simp add: survivors_def cr)
  have a: "length (survivors C f st w) = mu st" unfolding sv using l4 l3 big by simp
  have "mset (take (mu st) ?pop4) = mset (filter selected ?pop4)" using t4 by simp
  also have "\<dots> = mset (filter selected ?pop3)" using m4 by (metis mset_filter)
  finally have b: "mset (survivors C f st w) = mset (filter selected (credited_population C f st w))"
    by (simp add: sv cr)
  have st: "step C f st w = select_and_finish C st (pop1, w1)"
    using assms(1) g by (simp add: step_def)
  note fin = select_and_finish_eq[OF s big c2]
  let ?st' = "st\<lparr>m_pop := map (aged_and_updated C) (take (mu st) ?pop4) @ drop (mu st) ?pop4\<rparr>"
  have e1: "step C f st w = Some (map (\<lambda>x. result_pair (aged_and_updated C x)) (survivors C f st w), ?st', w1)"
    using st fin sv by simp
  have lt: "length (take (mu st) ?pop4) = mu st" using l4 l3 big by simp
  have e2: "take (mu st) (m_pop ?st') = map (aged_and_updated C) (survivors C f st w)"
    using lt sv by simp
  have e3: "length (m_pop ?st') = length (m_pop st)" using l4 l3 l2 l1 by simp
  have e4: "mu ?st' = mu st" by (simp add: mu_def)
  show ?thesis using ev l2 l1 c2 a b e1 e2 e3 e4 by auto
qed

text \<open>
  Claim C2. With the indicator-based selection as selection operator, on a population
  of at least \<open>2 * mu\<close> individuals (exactly \<open>2 * mu\<close> after \<^verbatim>\<open>init\<close>):
  selection flags exactly \<open>mu\<close> of the evaluated individuals; the survivors, the
  first \<open>mu\<close> slots after the partition, are exactly the flagged individuals;
  \<^verbatim>\<open>step\<close> returns, and its solution set lists, for each survivor in turn, the
  pair of the search point and the unpenalized fitness the survivor has after its age was
  incremented and \<^verbatim>\<open>update\<close> was called on it, so it has \<open>mu\<close> entries; the
  survivors so updated are the parents of the next generation.
\<close>

theorem step_returns_survivors:
  assumes "2 * mu st \<le> length (m_pop st)" and "select C = indicator_select contribution"
  shows "length (evaluated_population C f st w) = length (m_pop st)
       \<and> length (filter selected (evaluated_population C f st w)) = mu st
       \<and> length (survivors C f st w) = mu st
       \<and> mset (survivors C f st w) = mset (filter selected (credited_population C f st w))
       \<and> (\<exists>st' w'. step C f st w =
             Some (map (\<lambda>x. result_pair (aged_and_updated C x)) (survivors C f st w), st', w')
           \<and> take (mu st) (m_pop st') = map (aged_and_updated C) (survivors C f st w)
           \<and> length (m_pop st') = length (m_pop st) \<and> mu st' = mu st)"
  using step_result[OF assms] .

lemma example_select: "select example_operators = indicator_select (\<lambda>fs i. sum_list (fs ! i))"
  by (simp add: example_operators_def)

theorem step_returns_survivors_witness:
  "2 * mu example_state \<le> length (m_pop example_state)
   \<and> select example_operators = indicator_select (\<lambda>fs i. sum_list (fs ! i))
   \<and> length (filter selected (evaluated_population example_operators example_objective example_state 0)) = 2
   \<and> (\<exists>st' w'. step example_operators example_objective example_state 0 =
         Some (map (\<lambda>x. result_pair (aged_and_updated example_operators x))
                 (survivors example_operators example_objective example_state 0), st', w'))"
proof -
  have h: "2 * mu example_state \<le> length (m_pop example_state)"
    by (simp add: example_state_facts)
  from step_returns_survivors[OF h example_select, of example_objective 0]
  show ?thesis using h example_select by (auto simp: example_state_facts)
qed


section \<open>Success counts\<close>

text \<open>
  On the example population with \<open>mu = 2\<close>: offspring 0 (slot 2) is selected and
  ranked no worse than parent 0, so both are credited; offspring 1 (slot 3) is not
  selected, so parent 1 is not credited under either notion.
\<close>

lemma success_credit_example:
  "noSuccessfulOffspring (determine_success False 2 example_pop ! 0) = 1
   \<and> noSuccessfulOffspring (determine_success False 2 example_pop ! 2) = 1
   \<and> noSuccessfulOffspring (determine_success True 2 example_pop ! 1) = 0"
proof -
  have h: "2 * 2 \<le> length example_pop" by (simp add: example_pop_def)
  have a: "(0::nat) < 2" "(1::nat) < 2" by simp_all
  show ?thesis
    using success_credit[OF h a(1), of False] success_credit[OF h a(2), of True]
    by (simp add: successful_def example_pop_def CMAIndividual_def)
qed

text \<open>
  What \<^verbatim>\<open>step\<close> returns, in terms of the population the success loops leave: the
  partition and the last loop run on that population.
\<close>

lemma step_after_success:
  assumes "2 * mu st \<le> length (m_pop st)"
    and "2 * mu st \<le> length (evaluated_population C f st w)"
  shows "\<exists>w'. step C f st w =
           Some (snd (update_survivors C (mu st)
                        (std_partition selected (credited_population C f st w))),
                 st\<lparr>m_pop := fst (update_survivors C (mu st)
                        (std_partition selected (credited_population C f st w)))\<rparr>,
                 w')"
  using assms
  by (simp add: step_def select_and_finish_def evaluated_population_def
        credited_population_def split_beta Let_def)

text \<open>
  Claim C3. During \<^verbatim>\<open>step\<close>, on the population selection has flagged and ranked
  (\<open>evaluated_population\<close>), with \<^verbatim>\<open>mu()\<close> and the flag \<^verbatim>\<open>m_useNewUpdate\<close>
  of the optimizer: for every parent index \<open>i\<close> below \<open>mu\<close>, the population the
  success loops leave (\<open>credited_population\<close>) has 1 added to
  \<^verbatim>\<open>noSuccessfulOffspring\<close> of both parent \<open>i\<close> and offspring \<open>mu + i\<close> if,
  under the population-based notion (flag true), the offspring is selected, or, under the
  individual-based notion (flag false), the offspring is selected and its rank is at most
  the parent's; otherwise both are as selection left them. \<^verbatim>\<open>step\<close> goes on to
  partition and return from exactly that credited population, and \<^verbatim>\<open>init\<close> maps the
  two notions to the two values of the flag.
\<close>

theorem success_counts:
  assumes "2 * mu st \<le> length (m_pop st)"
    and "2 * mu st \<le> length (evaluated_population C f st w)"
    and "i < mu st"
  shows "credited_population C f st w ! i =
           (if (if m_useNewUpdate st
                then selected (evaluated_population C f st w ! (mu st + i))
                else selected (evaluated_population C f st w ! (mu st + i))
                   \<and> rank (evaluated_population C f st w ! (mu st + i))
                       \<le> rank (evaluated_population C f st w ! i))
            then credit (evaluated_population C f st w ! i)
            else evaluated_population C f st w ! i)
       \<and> credited_population C f st w ! (mu st + i) =
           (if (if m_useNewUpdate st
                then selected (evaluated_population C f st w ! (mu st + i))
                else selected (evaluated_population C f st w ! (mu st + i))
                   \<and> rank (evaluated_population C f st w ! (mu st + i))
                       \<le> rank (evaluated_population C f st w ! i))
            then credit (evaluated_population C f st w ! (mu st + i))
            else evaluated_population C f st w ! (mu st + i))
       \<and> noSuccessfulOffspring (credit (evaluated_population C f st w ! i))
           = noSuccessfulOffspring (evaluated_population C f st w ! i) + 1
       \<and> noSuccessfulOffspring (credit (evaluated_population C f st w ! (mu st + i)))
           = noSuccessfulOffspring (evaluated_population C f st w ! (mu st + i)) + 1
       \<and> (\<exists>w'. step C f st w =
             Some (snd (update_survivors C (mu st)
                          (std_partition selected (credited_population C f st w))),
                   st\<lparr>m_pop := fst (update_survivors C (mu st)
                          (std_partition selected (credited_population C f st w)))\<rparr>,
                   w'))
       \<and> m_useNewUpdate (init_config n pf th ''IndividualBased'' sg st0) = False
       \<and> m_useNewUpdate (init_config n pf th ''PopulationBased'' sg st0) = True"
proof -
  note c = success_credit[OF assms(2,3), of "m_useNewUpdate st"]
  have a: "credited_population C f st w ! i =
           (if successful (m_useNewUpdate st) (mu st) (evaluated_population C f st w) i
            then credit (evaluated_population C f st w ! i)
            else evaluated_population C f st w ! i)"
    using c by (simp add: credited_population_def)
  have b: "credited_population C f st w ! (mu st + i) =
           (if successful (m_useNewUpdate st) (mu st) (evaluated_population C f st w) i
            then credit (evaluated_population C f st w ! (mu st + i))
            else evaluated_population C f st w ! (mu st + i))"
    using c by (simp add: credited_population_def)
  note s = step_after_success[OF assms(1,2)]
  have f: "m_useNewUpdate (init_config n pf th ''IndividualBased'' sg st0) = False"
    "m_useNewUpdate (init_config n pf th ''PopulationBased'' sg st0) = True"
    by (simp_all add: init_config_def Let_def)
  show ?thesis
    using a b s f unfolding successful_def by (simp add: credit_def)
qed

theorem success_counts_witness:
  "2 * mu example_state \<le> length (m_pop example_state)
   \<and> 2 * mu example_state
       \<le> length (evaluated_population example_operators example_objective example_state 0)
   \<and> 0 < mu example_state
   \<and> (\<exists>w'. step example_operators example_objective example_state 0 =
         Some (snd (update_survivors example_operators (mu example_state)
                 (std_partition selected
                    (credited_population example_operators example_objective example_state 0))),
               example_state\<lparr>m_pop := fst (update_survivors example_operators (mu example_state)
                 (std_partition selected
                    (credited_population example_operators example_objective example_state 0)))\<rparr>,
               w'))"
proof -
  have h1: "2 * mu example_state \<le> length (m_pop example_state)"
    by (simp add: example_state_facts)
  have "length (evaluated_population example_operators example_objective example_state 0)
          = length (m_pop example_state)"
    using step_result[OF h1 example_select, of example_objective 0] by blast
  then have h2: "2 * mu example_state
       \<le> length (evaluated_population example_operators example_objective example_state 0)"
    using h1 by simp
  have h3: "0 < mu example_state" by (simp add: example_state_facts)
  from success_counts[OF h1 h2 h3]
  show ?thesis using h1 h2 h3 by blast
qed

section \<open>Determinism of a run\<close>

lemma make_offspring_pop [simp]:
  "make_offspring C f (st\<lparr>m_pop := p\<rparr>) = make_offspring C f st"
  by (intro ext) (simp add: make_offspring_def)

lemma world_at_Suc:
  assumes "2 * mu st \<le> length (m_pop st)" "i < mu st"
  shows "world_at C f st w (Suc i) = snd (make_offspring C f st (m_pop st ! i) (world_at C f st w i))"
proof -
  let ?r = "fold (offspring_body C f st) [0..<i] (m_pop st, w)"
  note q = offspring_prefix[OF assms(1), of i C f w]
  have li: "length (fst ?r) = length (m_pop st)" "fst ?r ! i = m_pop st ! i"
    using q assms by simp_all
  have "world_at C f st w (Suc i) = snd (offspring_body C f st i (fst ?r, world_at C f st w i))"
    by (simp add: world_at_def)
  also have "\<dots> = snd (make_offspring C f st (m_pop st ! i) (world_at C f st w i))"
    using offspring_body_eq[of st i "fst ?r" C f] assms li by simp
  finally show ?thesis .
qed

lemma world_at_parents_only:
  assumes "length pop1 = 2 * mu st" "length pop2 = 2 * mu st"
    and "take (mu st) pop1 = take (mu st) pop2" and "i \<le> mu st"
  shows "world_at C f (st\<lparr>m_pop := pop1\<rparr>) w i = world_at C f (st\<lparr>m_pop := pop2\<rparr>) w i"
  using assms(4)
proof (induction i)
  case 0
  show ?case by (simp add: world_at_def)
next
  case (Suc i)
  have mu1: "mu (st\<lparr>m_pop := pop1\<rparr>) = mu st" "mu (st\<lparr>m_pop := pop2\<rparr>) = mu st"
    by (simp_all add: mu_def)
  have i: "i < mu st" using Suc.prems by simp
  have par: "pop1 ! i = pop2 ! i"
    using assms(3) i by (metis nth_take)
  have a: "world_at C f (st\<lparr>m_pop := pop1\<rparr>) w (Suc i)
          = snd (make_offspring C f st (pop1 ! i) (world_at C f (st\<lparr>m_pop := pop1\<rparr>) w i))"
    using world_at_Suc[of "st\<lparr>m_pop := pop1\<rparr>" i C f w] assms(1) i mu1 by simp
  have b: "world_at C f (st\<lparr>m_pop := pop2\<rparr>) w (Suc i)
          = snd (make_offspring C f st (pop2 ! i) (world_at C f (st\<lparr>m_pop := pop2\<rparr>) w i))"
    using world_at_Suc[of "st\<lparr>m_pop := pop2\<rparr>" i C f w] assms(2) i mu1 by simp
  show ?case unfolding a b using Suc.IH i par by simp
qed

lemma generate_offspring_parents_only:
  assumes "length pop1 = 2 * mu st" "length pop2 = 2 * mu st"
    and "take (mu st) pop1 = take (mu st) pop2"
  shows "generate_offspring C f (st\<lparr>m_pop := pop1\<rparr>) w = generate_offspring C f (st\<lparr>m_pop := pop2\<rparr>) w"
proof -
  let ?st1 = "st\<lparr>m_pop := pop1\<rparr>" and ?st2 = "st\<lparr>m_pop := pop2\<rparr>"
  have mu1: "mu ?st1 = mu st" "mu ?st2 = mu st" by (simp_all add: mu_def)
  have h1: "2 * mu ?st1 \<le> length (m_pop ?st1)" using assms(1) mu1 by simp
  have h2: "2 * mu ?st2 \<le> length (m_pop ?st2)" using assms(2) mu1 by simp
  note p1 = offspring_prefix[OF h1 le_refl, of C f w]
  note p2 = offspring_prefix[OF h2 le_refl, of C f w]
  have w: "world_at C f ?st1 w i = world_at C f ?st2 w i" if "i \<le> mu st" for i
    using world_at_parents_only[OF assms that] .
  have "fst (generate_offspring C f ?st1 w) = fst (generate_offspring C f ?st2 w)"
  proof (rule nth_equalityI)
    show "length (fst (generate_offspring C f ?st1 w)) = length (fst (generate_offspring C f ?st2 w))"
      using p1 p2 assms by (simp add: generate_offspring_def mu1)
  next
    fix j assume "j < length (fst (generate_offspring C f ?st1 w))"
    then have j: "j < 2 * mu st" using p1 assms by (simp add: generate_offspring_def mu1)
    show "fst (generate_offspring C f ?st1 w) ! j = fst (generate_offspring C f ?st2 w) ! j"
    proof (cases "j < mu st")
      case True
      then have "pop1 ! j = pop2 ! j" using assms(3) by (metis nth_take)
      then show ?thesis using p1 p2 j True assms by (simp add: generate_offspring_def mu1)
    next
      case False
      then have k: "j - mu st < mu st" using j by simp
      then have "pop1 ! (j - mu st) = pop2 ! (j - mu st)" using assms(3) by (metis nth_take)
      moreover have "world_at C f ?st1 w (j - mu st) = world_at C f ?st2 w (j - mu st)"
        using w[of "j - mu st"] k by simp
      ultimately show ?thesis using p1 p2 j False assms by (simp add: generate_offspring_def mu1)
    qed
  qed
  moreover have "snd (generate_offspring C f ?st1 w) = snd (generate_offspring C f ?st2 w)"
    using w[of "mu st"] by (simp add: generate_offspring_def world_at_def mu1)
  ultimately show ?thesis by (simp add: prod_eq_iff)
qed

lemma step_parents_only:
  assumes "length pop1 = 2 * mu st" "length pop2 = 2 * mu st"
    and "take (mu st) pop1 = take (mu st) pop2"
  shows "step C f (st\<lparr>m_pop := pop1\<rparr>) w = step C f (st\<lparr>m_pop := pop2\<rparr>) w"
proof -
  have "select_and_finish C (st\<lparr>m_pop := pop1\<rparr>) x = select_and_finish C (st\<lparr>m_pop := pop2\<rparr>) x" for x
    by (simp add: select_and_finish_def mu_def split_beta)
  then show ?thesis
    using generate_offspring_parents_only[OF assms, of C f w] assms(1,2)
    by (simp add: step_def mu_def)
qed

lemma trajectory_total:
  assumes "2 * mu st \<le> length (m_pop st)" and "select C = indicator_select contribution"
  shows "\<exists>t. trajectory C f n st w = Some t \<and> length t = n"
  using assms(1)
proof (induction n arbitrary: st w)
  case 0
  show ?case by simp
next
  case (Suc n)
  from step_result[OF Suc.prems assms(2), of f w]
  obtain sol st' w' where s: "step C f st w = Some (sol, st', w')"
    "length (m_pop st') = length (m_pop st)" "mu st' = mu st" by blast
  then have "2 * mu st' \<le> length (m_pop st')" using Suc.prems by simp
  from Suc.IH[OF this, of w'] obtain t where "trajectory C f n st' w' = Some t" "length t = n"
    by blast
  then show ?case using s(1) by simp
qed

text \<open>
  \<^verbatim>\<open>step\<close> overwrites the offspring slots before it reads them: two runs from the
  same configuration, parents, world and objective function record the same solution
  sets and step sizes whatever the offspring slots held at the start.
\<close>

lemma trajectory_parents_only:
  assumes "length pop1 = 2 * mu st" and "length pop2 = 2 * mu st"
    and "take (mu st) pop1 = take (mu st) pop2"
  shows "trajectory C f n (st\<lparr>m_pop := pop1\<rparr>) w = trajectory C f n (st\<lparr>m_pop := pop2\<rparr>) w"
proof (cases n)
  case 0
  then show ?thesis by simp
next
  case (Suc k)
  show ?thesis unfolding Suc using step_parents_only[OF assms, of C f w] by simp
qed

lemma trajectory_parents_only_example:
  "length example_pop = 2 * mu example_state
   \<and> length (example_pop[3 := example_individual]) = 2 * mu example_state
   \<and> take (mu example_state) example_pop = take (mu example_state) (example_pop[3 := example_individual])
   \<and> example_pop \<noteq> example_pop[3 := example_individual]
   \<and> trajectory example_operators example_objective 3 (example_state\<lparr>m_pop := example_pop\<rparr>) 0
     = trajectory example_operators example_objective 3
         (example_state\<lparr>m_pop := example_pop[3 := example_individual]\<rparr>) 0
   \<and> (\<exists>t. trajectory example_operators example_objective 3 (example_state\<lparr>m_pop := example_pop\<rparr>) 0
          = Some t \<and> length t = 3)"
proof -
  have h: "length example_pop = 2 * mu example_state"
    "length (example_pop[3 := example_individual]) = 2 * mu example_state"
    "take (mu example_state) example_pop = take (mu example_state) (example_pop[3 := example_individual])"
    by (simp_all add: example_state_facts example_pop_def)
  have d: "example_pop \<noteq> example_pop[3 := example_individual]"
    by (simp add: example_pop_def example_individual_def CMAIndividual_def)
  note t = trajectory_parents_only[OF h, of example_operators example_objective 3 0]
  have "2 * mu (example_state\<lparr>m_pop := example_pop\<rparr>) \<le> length (m_pop (example_state\<lparr>m_pop := example_pop\<rparr>))"
    by (simp add: mu_def example_state_facts[unfolded mu_def])
  from trajectory_total[OF this example_select, of example_objective 3 0]
  have e: "\<exists>t. trajectory example_operators example_objective 3 (example_state\<lparr>m_pop := example_pop\<rparr>) 0
          = Some t \<and> length t = 3" .
  show ?thesis using h d t e by (intro conjI) simp_all
qed


end
